theory Spec2Isabelle
  imports Complex_Main "HOL-Library.Log_Nat"
begin

section \<open>Errors\<close>

text \<open>
  Every exception the Python code can raise is a value.  A failed \<^verbatim>\<open>assert\<close> is
  \<open>AssertionError\<close>; indexing a list out of range is \<open>IndexError\<close>; an integer division by
  zero is \<open>ZeroDivisionError\<close>; a float result too large for binary64 is \<open>OverflowError\<close>;
  reading \<^verbatim>\<open>.y\<close> of a \<^verbatim>\<open>gridPos\<close> that is still \<^verbatim>\<open>None\<close> is \<open>AttributeError\<close>.
\<close>

datatype error = AssertionError | IndexError | ZeroDivisionError | OverflowError | AttributeError

section \<open>Binary64 arithmetic, as far as the width computation uses it\<close>

text \<open>
  \<^verbatim>\<open>floor(total_width / total_sum * elem)\<close> is computed by Python in floating point:
  \<^verbatim>\<open>int / int\<close> is the correctly rounded quotient, \<^verbatim>\<open>float * int\<close> converts the integer
  (correctly rounded) and multiplies with one more rounding, and \<^verbatim>\<open>math.floor\<close> returns an
  integer.  A finite double is modelled by the pair \<open>(m, e)\<close> of its integer significand and
  exponent, standing for \<open>m * 2 ^ e\<close>.  Rounding is to nearest, ties to even, to 53 bits, with
  the exponent held at \<open>-1074\<close> in the subnormal range: \<open>round_double a b\<close> is the double
  nearest to \<open>a / b\<close> for \<open>0 \<le> a\<close> and \<open>0 < b\<close>, with exponent \<open>rd_exp a b\<close> and
  significand \<open>rd_mant a b\<close>, where \<open>ilog2_quot a b\<close> is the integer part of the binary
  logarithm of \<open>a / b\<close>.  A result of magnitude \<open>2 ^ 1024\<close> or
  more is \<open>OverflowError\<close>: Python raises it in the division and in the conversion, and a
  product that overflows to infinity makes \<^verbatim>\<open>math.floor\<close> raise it.
\<close>

type_synonym double = "int \<times> int"

definition double_val :: "double \<Rightarrow> rat" where
  "double_val d = (case d of (m, e) \<Rightarrow> of_int m * 2 powi e)"

definition round_half_even :: "int \<Rightarrow> int \<Rightarrow> int" where
  "round_half_even n d =
     (let q = n div d; r = n mod d
      in if 2 * r < d then q
         else if d < 2 * r then q + 1
         else if even q then q else q + 1)"

definition ilog2_quot :: "int \<Rightarrow> int \<Rightarrow> int" where
  "ilog2_quot a b =
     (let k = bitlen a - bitlen b
      in if (if 0 \<le> k then b * 2 ^ nat k \<le> a else b \<le> a * 2 ^ nat (- k)) then k else k - 1)"

definition rd_exp :: "int \<Rightarrow> int \<Rightarrow> int" where
  "rd_exp a b = max (ilog2_quot a b - 52) (- 1074)"

definition rd_mant :: "int \<Rightarrow> int \<Rightarrow> int" where
  "rd_mant a b =
     (if 0 \<le> rd_exp a b then round_half_even a (b * 2 ^ nat (rd_exp a b))
      else round_half_even (a * 2 ^ nat (- rd_exp a b)) b)"

definition round_double :: "int \<Rightarrow> int \<Rightarrow> error + double" where
  "round_double a b =
     (if a = 0 then Inr (0, 0)
      else let e = rd_exp a b; m = rd_mant a b
           in if 0 \<le> e \<and> 2 ^ 1024 \<le> m * 2 ^ nat e then Inl OverflowError else Inr (m, e))"

definition signed_round :: "int \<Rightarrow> int \<Rightarrow> error + double" where
  "signed_round a b =
     (case round_double \<bar>a\<bar> \<bar>b\<bar> of
        Inl err \<Rightarrow> Inl err
      | Inr (m, e) \<Rightarrow> Inr (sgn a * sgn b * m, e))"

definition true_divide :: "int \<Rightarrow> int \<Rightarrow> error + double" where
  "true_divide a b = (if b = 0 then Inl ZeroDivisionError else signed_round a b)"

definition float_of_int :: "int \<Rightarrow> error + double" where
  "float_of_int k = signed_round k 1"

definition float_mul :: "double \<Rightarrow> double \<Rightarrow> error + double" where
  "float_mul c d = (case c of (m1, e1) \<Rightarrow> case d of (m2, e2) \<Rightarrow>
     if 0 \<le> e1 + e2 then signed_round (m1 * m2 * 2 ^ nat (e1 + e2)) 1
     else signed_round (m1 * m2) (2 ^ nat (- (e1 + e2))))"

definition float_floor :: "double \<Rightarrow> int" where
  "float_floor d = (case d of (m, e) \<Rightarrow>
     if 0 \<le> e then m * 2 ^ nat e else m div 2 ^ nat (- e))"

text \<open>
  The factors by which one rounding can shrink and enlarge a number in the normal range.
\<close>

definition rnd_c :: rat where
  "rnd_c = 1 - 1 / 2 ^ 53"


section \<open>The width allocator: \<^verbatim>\<open>PanelGroup._create_width_units_array\<close>\<close>

text \<open>
  \<^verbatim>\<open>max(1, floor(total_width / total_sum * elem))\<close> for one element.
\<close>

definition raw_width :: "int \<Rightarrow> int \<Rightarrow> int \<Rightarrow> error + int" where
  "raw_width total_width total_sum elem =
     (case true_divide total_width total_sum of
        Inl err \<Rightarrow> Inl err
      | Inr q \<Rightarrow>
         (case float_of_int elem of
            Inl err \<Rightarrow> Inl err
          | Inr f \<Rightarrow>
             (case float_mul q f of
                Inl err \<Rightarrow> Inl err
              | Inr p \<Rightarrow> Inr (max 1 (float_floor p)))))"

text \<open>
  The list comprehension: the elements are computed from left to right and the first
  exception ends it.  On the empty list nothing is computed, so nothing is raised.
\<close>

fun raw_widths :: "int \<Rightarrow> int \<Rightarrow> int list \<Rightarrow> error + int list" where
  "raw_widths total_width total_sum [] = Inr []"
| "raw_widths total_width total_sum (elem # arr) =
     (case raw_width total_width total_sum elem of
        Inl err \<Rightarrow> Inl err
      | Inr r \<Rightarrow>
         (case raw_widths total_width total_sum arr of
            Inl err \<Rightarrow> Inl err
          | Inr rs \<Rightarrow> Inr (r # rs)))"

text \<open>
  \<^verbatim>\<open>sorted(range(len(result)), key=lambda i: result[i], reverse=True)\<close>: Python's sort is
  stable and \<^verbatim>\<open>reverse=True\<close> keeps the original order of equal keys, which is the stable
  ascending sort on the negated key.
\<close>

definition sorted_idx :: "int list \<Rightarrow> nat list" where
  "sorted_idx result = sort_key (\<lambda>i. - (result ! i)) [0..<length result]"

text \<open>
  \<^verbatim>\<open>for i in range(delta): result[idx[i]] += 1\<close>.  The first argument is the part of
  \<open>idx\<close> from position \<open>i\<close> on, the second the number of iterations left; \<open>idx[i]\<close> beyond
  the end of \<open>idx\<close> raises.
\<close>

fun distribute :: "nat list \<Rightarrow> nat \<Rightarrow> int list \<Rightarrow> error + int list" where
  "distribute idx 0 result = Inr result"
| "distribute [] (Suc n) result = Inl IndexError"
| "distribute (j # idx) (Suc n) result = distribute idx n (result[j := result ! j + 1])"

definition create_width_units_array :: "int list \<Rightarrow> int \<Rightarrow> error + int list" where
  "create_width_units_array arr total_width =
     (let total_sum = sum_list arr
      in case raw_widths total_width total_sum arr of
           Inl err \<Rightarrow> Inl err
         | Inr result \<Rightarrow>
            (let delta = total_width - sum_list result
             in if 0 < delta then distribute (sorted_idx result) (nat delta) result
                else Inr result))"

section \<open>Panels, grid positions and panel groups\<close>

text \<open>
  \<^verbatim>\<open>PanelSize\<close> is the enumeration of relative widths; \<open>size_value\<close> is its \<^verbatim>\<open>.value\<close>.
\<close>

datatype PanelSize = SMALL | MEDIUM | LARGE | XLARGE

fun size_value :: "PanelSize \<Rightarrow> int" where
  "size_value SMALL = 1"
| "size_value MEDIUM = 2"
| "size_value LARGE = 3"
| "size_value XLARGE = 4"

definition MAX_WIDTH :: int where
  "MAX_WIDTH = 24"

text \<open>
  \<^verbatim>\<open>GridPos(x, y, w, h)\<close> of grafanalib, by its four attributes.
\<close>

record GridPos =
  gp_x :: int
  gp_y :: int
  gp_w :: int
  gp_h :: int

text \<open>
  The attributes of a \<^verbatim>\<open>PanelGroup\<close>: \<^verbatim>\<open>_layout\<close>, \<^verbatim>\<open>row_heights\<close>, \<^verbatim>\<open>row\<close>, \<^verbatim>\<open>_y\<close>,
  \<^verbatim>\<open>height\<close> and \<^verbatim>\<open>panels\<close>.  Panels and the row are objects that the caller owns and
  that the group refers to: \<open>pg_row\<close> and \<open>pg_panels\<close> hold their addresses, so one panel
  can be listed twice, in one group or in two.
\<close>

record PanelGroup =
  pg_layout :: "PanelSize list list"
  pg_row_heights :: "int list"
  pg_row :: "nat option"
  pg_y :: int
  pg_height :: int
  pg_panels :: "nat list"

text \<open>
  The objects that the code changes live in a store.  Of a panel (or row) the layout code
  touches only the attribute \<^verbatim>\<open>gridPos\<close>, which is \<^verbatim>\<open>None\<close> or refers to a \<^verbatim>\<open>GridPos\<close>
  object: \<open>gridPos s p\<close> is that reference for the panel at address \<open>p\<close>, and \<open>cells s a\<close>
  is the \<^verbatim>\<open>GridPos\<close> object at address \<open>a\<close>.  \<open>next_cell\<close> is the address the next
  \<^verbatim>\<open>GridPos(...)\<close> call returns.  \<open>groups s a\<close> is the \<^verbatim>\<open>PanelGroup\<close> object at address \<open>a\<close>
  and \<open>tree_y s b\<close> the attribute \<^verbatim>\<open>y\<close> of the \<^verbatim>\<open>PanelPositioning\<close> object at address \<open>b\<close>.
  The lists the objects hold (\<^verbatim>\<open>panels\<close>, \<^verbatim>\<open>row_heights\<close>, \<^verbatim>\<open>_layout\<close>, \<^verbatim>\<open>panel_groups\<close>) are
  read, never changed, by the operations modelled here, so they are values.
\<close>

record store =
  gridPos :: "nat \<Rightarrow> nat option"
  cells :: "nat \<Rightarrow> GridPos"
  next_cell :: nat
  groups :: "nat \<Rightarrow> PanelGroup"
  tree_y :: "nat \<Rightarrow> int"

text \<open>
  \<^verbatim>\<open>panel.gridPos = GridPos(x=.., y=.., w=.., h=..)\<close>: a new \<^verbatim>\<open>GridPos\<close> object is
  created and the panel at \<open>p\<close> is made to refer to it.
\<close>

definition assign_gridPos :: "nat \<Rightarrow> GridPos \<Rightarrow> store \<Rightarrow> store" where
  "assign_gridPos p v s =
     s\<lparr>gridPos := (gridPos s)(p \<mapsto> next_cell s),
       cells := (cells s)(next_cell s := v),
       next_cell := Suc (next_cell s)\<rparr>"

text \<open>
  The two shapes of the \<^verbatim>\<open>layout\<close> argument (a list of sizes, or a list of rows of sizes)
  and of the \<^verbatim>\<open>row_heights\<close> argument (a list, or one integer).  The Python list \<^verbatim>\<open>[]\<close> is
  both \<open>Flat []\<close> and \<open>Nested []\<close>.
\<close>

datatype layout_arg = Flat "PanelSize list" | Nested "PanelSize list list"

datatype heights_arg = Heights "int list" | Height int

text \<open>
  The inner loop of \<^verbatim>\<open>_compute_grid_pos\<close>, \<^verbatim>\<open>for width in panel_sizes_units\<close>, threading
  \<open>current_x\<close>, \<open>panel_index\<close> and the store.  \<^verbatim>\<open>self.panels[panel_index]\<close> is read first,
  then \<^verbatim>\<open>self.row_heights[row_index]\<close>; the assignment goes to the object that entry
  \<open>panel_index\<close> of \<open>panels\<close> refers to.
\<close>

fun place_panels ::
  "int list \<Rightarrow> int \<Rightarrow> int \<Rightarrow> int list \<Rightarrow> nat \<Rightarrow> nat list \<Rightarrow> nat \<Rightarrow> store
     \<Rightarrow> error + (nat \<times> store)" where
  "place_panels [] current_x current_y rhs row_index ps panel_index s = Inr (panel_index, s)"
| "place_panels (width # units) current_x current_y rhs row_index ps panel_index s =
     (if panel_index < length ps then
        (if row_index < length rhs then
           place_panels units (current_x + width) current_y rhs row_index ps (panel_index + 1)
             (assign_gridPos (ps ! panel_index)
                \<lparr>gp_x = current_x, gp_y = current_y, gp_w = width, gp_h = rhs ! row_index\<rparr> s)
         else Inl IndexError)
      else Inl IndexError)"

text \<open>
  The outer loop, \<^verbatim>\<open>for row_index, panel_sizes in enumerate(self._layout)\<close>, threading
  \<open>current_y\<close>, \<open>panel_index\<close> and the store.
\<close>

fun place_rows ::
  "PanelSize list list \<Rightarrow> nat \<Rightarrow> int \<Rightarrow> int list \<Rightarrow> nat list \<Rightarrow> nat \<Rightarrow> store
     \<Rightarrow> error + store" where
  "place_rows [] row_index current_y rhs ps panel_index s = Inr s"
| "place_rows (panel_sizes # rest) row_index current_y rhs ps panel_index s =
     (case create_width_units_array (map size_value panel_sizes) MAX_WIDTH of
        Inl err \<Rightarrow> Inl err
      | Inr panel_sizes_units \<Rightarrow>
         (case place_panels panel_sizes_units 0 current_y rhs row_index ps panel_index s of
            Inl err \<Rightarrow> Inl err
          | Inr (panel_index', s') \<Rightarrow>
             (if row_index < length rhs then
                place_rows rest (row_index + 1) (current_y + (rhs ! row_index + 1)) rhs
                  ps panel_index' s'
              else Inl IndexError)))"

text \<open>
  \<^verbatim>\<open>_compute_grid_pos\<close>: the row header first, when there is one, then the rows.
\<close>

definition compute_grid_pos :: "PanelGroup \<Rightarrow> store \<Rightarrow> error + store" where
  "compute_grid_pos g s =
     (let s1 = (case pg_row g of
                  None \<Rightarrow> s
                | Some r \<Rightarrow>
                   assign_gridPos r \<lparr>gp_x = 0, gp_y = pg_y g, gp_w = MAX_WIDTH, gp_h = 1\<rparr> s);
          current_y = (case pg_row g of None \<Rightarrow> pg_y g | Some r \<Rightarrow> pg_y g + 2)
      in place_rows (pg_layout g) 0 current_y (pg_row_heights g) (pg_panels g) 0 s1)"

text \<open>
  \<^verbatim>\<open>layout if isinstance(layout[0], list) else [layout] * (len(panels) // len(layout))\<close>;
  \<^verbatim>\<open>layout[0]\<close> of the empty list raises.
\<close>

fun normalize_layout :: "layout_arg \<Rightarrow> nat \<Rightarrow> error + PanelSize list list" where
  "normalize_layout (Flat []) n = Inl IndexError"
| "normalize_layout (Nested []) n = Inl IndexError"
| "normalize_layout (Nested rows) n = Inr rows"
| "normalize_layout (Flat sizes) n = Inr (replicate (n div length sizes) sizes)"

text \<open>
  \<^verbatim>\<open>PanelGroup.__init__(layout, panels, y, row_heights, row)\<close>.  \<open>None\<close> for \<open>layout\<close> is
  Python's \<^verbatim>\<open>None\<close>; \<open>None\<close> for \<open>y\<close> is the omitted argument, whose default is 0; \<open>None\<close>
  for \<open>row\<close> is the default \<^verbatim>\<open>None\<close>.  The result is the new object, by its attributes,
  beside the store in which its panels have their positions.
\<close>

definition PanelGroup_init ::
  "layout_arg option \<Rightarrow> nat list \<Rightarrow> int option \<Rightarrow> heights_arg \<Rightarrow> nat option \<Rightarrow> store
     \<Rightarrow> error + (PanelGroup \<times> store)" where
  "PanelGroup_init layout ps y row_heights row s =
     (case layout of
        None \<Rightarrow> Inl AssertionError
      | Some l \<Rightarrow>
         (case normalize_layout l (length ps) of
            Inl err \<Rightarrow> Inl err
          | Inr lay \<Rightarrow>
             if sum_list (map length lay) \<noteq> length ps then Inl AssertionError
             else
               (case (case row_heights of
                        Heights hs \<Rightarrow>
                          if length hs = length lay then Inr hs else Inl AssertionError
                      | Height h \<Rightarrow> Inr (replicate (length lay) h)) of
                  Inl err \<Rightarrow> Inl err
                | Inr hs \<Rightarrow>
                   (let g = \<lparr>pg_layout = lay, pg_row_heights = hs, pg_row = row,
                             pg_y = (case y of None \<Rightarrow> 0 | Some v \<Rightarrow> v),
                             pg_height = sum_list hs + int (length hs)
                                           + (if row \<noteq> None then 2 else 0),
                             pg_panels = ps\<rparr>
                    in case compute_grid_pos g s of
                         Inl err \<Rightarrow> Inl err
                       | Inr s' \<Rightarrow> Inr (g, s')))))"

text \<open>
  \<^verbatim>\<open>panel.gridPos.y += delta\<close>: an attribute error when \<^verbatim>\<open>gridPos\<close> is \<^verbatim>\<open>None\<close>, otherwise
  a change of the \<^verbatim>\<open>GridPos\<close> object the panel refers to.
\<close>

definition shift_panel :: "int \<Rightarrow> nat \<Rightarrow> store \<Rightarrow> error + store" where
  "shift_panel delta p s =
     (case gridPos s p of
        None \<Rightarrow> Inl AttributeError
      | Some a \<Rightarrow> Inr (s\<lparr>cells := (cells s)(a := (cells s a)\<lparr>gp_y := gp_y (cells s a) + delta\<rparr>)\<rparr>))"

text \<open>
  \<^verbatim>\<open>for panel in self.panels: panel.gridPos.y += delta\<close>.
\<close>

fun shift_panels :: "int \<Rightarrow> nat list \<Rightarrow> store \<Rightarrow> error + store" where
  "shift_panels delta [] s = Inr s"
| "shift_panels delta (p # ps) s =
     (case shift_panel delta p s of
        Inl err \<Rightarrow> Inl err
      | Inr s' \<Rightarrow> shift_panels delta ps s')"

text \<open>
  \<^verbatim>\<open>PanelGroup.set_y\<close> and \<^verbatim>\<open>PanelGroup.get_height\<close>.  \<open>set_y\<close> returns the object with its
  new \<^verbatim>\<open>_y\<close> beside the store.
\<close>

definition PanelGroup_set_y :: "PanelGroup \<Rightarrow> int \<Rightarrow> store \<Rightarrow> error + (PanelGroup \<times> store)" where
  "PanelGroup_set_y g y s =
     (if \<not> 0 \<le> y then Inl AssertionError
      else let delta = y - pg_y g
           in case (case pg_row g of
                      None \<Rightarrow> Inr s
                    | Some r \<Rightarrow> shift_panel delta r s) of
                Inl err \<Rightarrow> Inl err
              | Inr s1 \<Rightarrow>
                 (case shift_panels delta (pg_panels g) s1 of
                    Inl err \<Rightarrow> Inl err
                  | Inr s2 \<Rightarrow> Inr (g\<lparr>pg_y := y\<rparr>, s2)))"

definition PanelGroup_get_height :: "PanelGroup \<Rightarrow> int" where
  "PanelGroup_get_height g = pg_height g"

section \<open>The positioning tree: \<^verbatim>\<open>PanelPositioning\<close>\<close>

text \<open>
  A member of a \<^verbatim>\<open>PanelPositioning\<close> is a \<^verbatim>\<open>PanelGroup\<close> or another \<^verbatim>\<open>PanelPositioning\<close>.
  \<open>Group a\<close> is the group object at address \<open>a\<close>; \<open>Positioning b panel_groups\<close> is the
  tree object at address \<open>b\<close> with its list \<^verbatim>\<open>panel_groups\<close>.  One object can be listed
  more than once, in one tree or in several; a tree that contains itself has no
  representation.
\<close>

datatype member = Group nat | Positioning nat "member list"

text \<open>
  \<^verbatim>\<open>get_height\<close> and \<^verbatim>\<open>set_y\<close> of a member: of a group, the methods above on the object
  in the store; of a tree, the sum of the members' heights and the checked assignment
  to \<^verbatim>\<open>self.y\<close>.
\<close>

fun get_height :: "store \<Rightarrow> member \<Rightarrow> int" where
  "get_height s (Group a) = PanelGroup_get_height (groups s a)"
| "get_height s (Positioning b panel_groups) = sum_list (map (get_height s) panel_groups)"

fun set_y :: "member \<Rightarrow> int \<Rightarrow> store \<Rightarrow> error + store" where
  "set_y (Group a) y s =
     (case PanelGroup_set_y (groups s a) y s of
        Inl err \<Rightarrow> Inl err
      | Inr (g', s') \<Rightarrow> Inr (s'\<lparr>groups := (groups s')(a := g')\<rparr>))"
| "set_y (Positioning b panel_groups) y s =
     (if \<not> 0 \<le> y then Inl AssertionError else Inr (s\<lparr>tree_y := (tree_y s)(b := y)\<rparr>))"

text \<open>
  \<^verbatim>\<open>PanelPositioning.__init__\<close>: \<^verbatim>\<open>panel_groups or []\<close> and \<^verbatim>\<open>self.y = 0\<close>, for the new
  object at address \<open>b\<close>.
\<close>

definition PanelPositioning_init :: "nat \<Rightarrow> member list option \<Rightarrow> store \<Rightarrow> member \<times> store" where
  "PanelPositioning_init b panel_groups s =
     (Positioning b (case panel_groups of None \<Rightarrow> [] | Some gs \<Rightarrow> gs),
      s\<lparr>tree_y := (tree_y s)(b := 0)\<rparr>)"

text \<open>
  The first loop of the property \<^verbatim>\<open>panels\<close>: \<^verbatim>\<open>group.set_y(current_y)\<close>, then
  \<^verbatim>\<open>current_y += group.get_height()\<close>.
\<close>

fun place_groups :: "int \<Rightarrow> member list \<Rightarrow> store \<Rightarrow> error + store" where
  "place_groups current_y [] s = Inr s"
| "place_groups current_y (grp # grps) s =
     (case set_y grp current_y s of
        Inl err \<Rightarrow> Inl err
      | Inr s' \<Rightarrow> place_groups (current_y + get_height s' grp) grps s')"

text \<open>
  The property \<^verbatim>\<open>PanelPositioning.panels\<close> of the tree at \<open>b\<close>.  \<open>collect\<close> is its second
  loop: the row of a group, when it has one, then \<^verbatim>\<open>group.panels\<close>, which for a nested
  \<^verbatim>\<open>PanelPositioning\<close> is this property again, read on the nested object with the store
  as it is then.  The result is the list of panel addresses beside the store.
\<close>

function (sequential)
  collect :: "member list \<Rightarrow> store \<Rightarrow> error + (nat list \<times> store)" and
  PanelPositioning_panels :: "nat \<Rightarrow> member list \<Rightarrow> store \<Rightarrow> error + (nat list \<times> store)"
where
  "collect [] s = Inr ([], s)"
| "collect (Group a # grps) s =
     (case collect grps s of
        Inl err \<Rightarrow> Inl err
      | Inr (ps, s') \<Rightarrow>
         Inr ((case pg_row (groups s a) of None \<Rightarrow> [] | Some r \<Rightarrow> [r])
                @ pg_panels (groups s a) @ ps, s'))"
| "collect (Positioning b panel_groups # grps) s =
     (case PanelPositioning_panels b panel_groups s of
        Inl err \<Rightarrow> Inl err
      | Inr (ps1, s1) \<Rightarrow>
         (case collect grps s1 of
            Inl err \<Rightarrow> Inl err
          | Inr (ps2, s2) \<Rightarrow> Inr (ps1 @ ps2, s2)))"
| "PanelPositioning_panels b panel_groups s =
     (case place_groups (tree_y s b) panel_groups s of
        Inl err \<Rightarrow> Inl err
      | Inr s1 \<Rightarrow> collect panel_groups s1)"
  by pat_completeness auto
termination
  by (relation "measure (\<lambda>x. case x of
                   Inl (ms, s) \<Rightarrow> 2 * size_list size ms
                 | Inr (b, ms, s) \<Rightarrow> 2 * size_list size ms + 1)")
     auto

text \<open>
  A store in which no panel has a position yet, every group object is blank and every
  tree has \<^verbatim>\<open>y = 0\<close>.
\<close>

definition blank_group :: PanelGroup where
  "blank_group = \<lparr>pg_layout = [], pg_row_heights = [], pg_row = None, pg_y = 0,
                  pg_height = 0, pg_panels = []\<rparr>"

definition empty_store :: store where
  "empty_store = \<lparr>gridPos = (\<lambda>p. None), cells = (\<lambda>a. \<lparr>gp_x = 0, gp_y = 0, gp_w = 0, gp_h = 0\<rparr>),
                  next_cell = 0, groups = (\<lambda>a. blank_group), tree_y = (\<lambda>b. 0)\<rparr>"

section \<open>The positions of a group in closed form\<close>

text \<open>
  What the specification says of the position computation, without the index
  bookkeeping of the code: the panels of a row stand left to right, each where the
  widths before it end; the rows follow one another, each \<open>row_height + 1\<close> below the one
  before.  \<open>widths_of\<close> is the allocation of one layout row (empty when the allocator
  raises).
\<close>

fun row_positions :: "int list \<Rightarrow> int \<Rightarrow> int \<Rightarrow> int \<Rightarrow> GridPos list" where
  "row_positions [] x y h = []"
| "row_positions (w # ws) x y h =
     \<lparr>gp_x = x, gp_y = y, gp_w = w, gp_h = h\<rparr> # row_positions ws (x + w) y h"

fun layout_positions :: "int list list \<Rightarrow> int list \<Rightarrow> int \<Rightarrow> GridPos list" where
  "layout_positions [] hs row_y = []"
| "layout_positions (ws # wss) [] row_y = []"
| "layout_positions (ws # wss) (h # hs) row_y =
     row_positions ws 0 row_y h @ layout_positions wss hs (row_y + (h + 1))"

definition widths_of :: "PanelSize list \<Rightarrow> int list" where
  "widths_of panel_sizes =
     (case create_width_units_array (map size_value panel_sizes) MAX_WIDTH of
        Inl err \<Rightarrow> []
      | Inr ws \<Rightarrow> ws)"

text \<open>
  What an observer sees of a panel: \<open>pos s p\<close> is the rectangle that \<^verbatim>\<open>p.gridPos\<close> holds in
  the store \<open>s\<close>, or \<open>None\<close>.  \<open>items g\<close> are the objects a group positions and moves, the
  row header first; \<open>shift d\<close> moves a rectangle down by \<open>d\<close>.
\<close>

definition pos :: "store \<Rightarrow> nat \<Rightarrow> GridPos option" where
  "pos s p = map_option (cells s) (gridPos s p)"

definition items :: "PanelGroup \<Rightarrow> nat list" where
  "items g = (case pg_row g of None \<Rightarrow> [] | Some r \<Rightarrow> [r]) @ pg_panels g"

definition shift :: "int \<Rightarrow> GridPos \<Rightarrow> GridPos" where
  "shift d q = q\<lparr>gp_y := gp_y q + d\<rparr>"

section \<open>Properties of the binary64 model\<close>

lemma rhe_lower: "0 < d \<Longrightarrow> 2 * n - d \<le> 2 * (round_half_even n d * d)"
proof -
  assume d: "0 < d"
  have n: "n = n div d * d + n mod d" by simp
  have r: "0 \<le> n mod d" "n mod d < d" using d by simp_all
  define q r where "q = n div d" and "r = n mod d"
  have "n = q * d + r" "0 \<le> r" "r < d" using n r by (simp_all add: q_def r_def)
  then show ?thesis
    unfolding round_half_even_def Let_def q_def[symmetric] r_def[symmetric]
    by (auto simp: algebra_simps)
qed

lemma rhe_upper: "0 < d \<Longrightarrow> 2 * (round_half_even n d * d) \<le> 2 * n + d"
proof -
  assume d: "0 < d"
  have n: "n = n div d * d + n mod d" by simp
  have r: "0 \<le> n mod d" "n mod d < d" using d by simp_all
  define q r where "q = n div d" and "r = n mod d"
  have "n = q * d + r" "0 \<le> r" "r < d" using n r by (simp_all add: q_def r_def)
  then show ?thesis
    unfolding round_half_even_def Let_def q_def[symmetric] r_def[symmetric]
    by (auto simp: algebra_simps)
qed

lemma rhe_nonneg: "0 < d \<Longrightarrow> 0 \<le> n \<Longrightarrow> 0 \<le> round_half_even n d"
  by (auto simp: round_half_even_def Let_def pos_imp_zdiv_nonneg_iff)

lemma ilog2_quot_lower:
  assumes "0 < a" "0 < b"
  shows "(2::rat) powi (ilog2_quot a b) \<le> of_int a / of_int b"
proof -
  define k where "k = bitlen a - bitlen b"
  have ba: "2 ^ nat (bitlen a - 1) \<le> a" and bb: "b < 2 ^ nat (bitlen b)"
    using bitlen_bounds[OF assms(1)] bitlen_bounds[OF assms(2)] by simp_all
  have la: "1 \<le> bitlen a" using assms(1) by (auto simp: bitlen_alt_def)
  have lb: "1 \<le> bitlen b" using assms(2) by (auto simp: bitlen_alt_def)
  show ?thesis
  proof (cases "if 0 \<le> k then b * 2 ^ nat k \<le> a else b \<le> a * 2 ^ nat (- k)")
    case test: True
    then have eq: "ilog2_quot a b = k"
      unfolding ilog2_quot_def Let_def k_def[symmetric] by simp
    show ?thesis
    proof (cases "0 \<le> k")
      case True
      with test have "b * 2 ^ nat k \<le> a" by simp
      then have "(of_int (b * 2 ^ nat k) :: rat) \<le> of_int a" by (simp only: of_int_le_iff)
      then have "(of_int b :: rat) * 2 ^ nat k \<le> of_int a" by simp
      then have "(2::rat) ^ nat k \<le> of_int a / of_int b"
        using assms(2) by (simp add: field_simps)
      then show ?thesis using True by (simp add: eq power_int_def)
    next
      case False
      with test have "b \<le> a * 2 ^ nat (- k)" by simp
      then have "(of_int b :: rat) \<le> of_int (a * 2 ^ nat (- k))" by (simp only: of_int_le_iff)
      then have "(of_int b :: rat) \<le> of_int a * 2 ^ nat (- k)" by simp
      then have "inverse ((2::rat) ^ nat (- k)) \<le> of_int a / of_int b"
        using assms(2) by (simp add: field_simps)
      then show ?thesis using False by (simp add: eq power_int_def power_one_over inverse_eq_divide)
    qed
  next
    case False
    then have eq: "ilog2_quot a b = k - 1"
      unfolding ilog2_quot_def Let_def k_def[symmetric] by simp
    have "(2::rat) powi (bitlen a - 1) \<le> of_int a"
    proof -
      have "(of_int (2 ^ nat (bitlen a - 1)) :: rat) \<le> of_int a" using ba by (simp only: of_int_le_iff)
      then show ?thesis using la by (simp add: power_int_def)
    qed
    moreover have "(of_int b :: rat) \<le> 2 powi (bitlen b)"
    proof -
      have "(of_int b :: rat) < of_int (2 ^ nat (bitlen b))" using bb by (simp only: of_int_less_iff)
      then show ?thesis using lb by (simp add: power_int_def)
    qed
    moreover have "(2::rat) powi (k - 1) = 2 powi (bitlen a - 1) / 2 powi (bitlen b)"
      by (simp add: k_def power_int_diff)
    ultimately show ?thesis
      using assms by (simp add: eq frac_le)
  qed
qed

lemma round_double_eq:
  "a \<noteq> 0 \<Longrightarrow> round_double a b =
     (if 0 \<le> rd_exp a b \<and> 2 ^ 1024 \<le> rd_mant a b * 2 ^ nat (rd_exp a b) then Inl OverflowError
      else Inr (rd_mant a b, rd_exp a b))"
  by (simp add: round_double_def Let_def)

lemma rd_err:
  assumes "0 < a" "0 < b"
  shows "0 \<le> rd_mant a b"
    and "\<bar>double_val (rd_mant a b, rd_exp a b) - of_int a / of_int b\<bar> \<le> 2 powi (rd_exp a b) / 2"
proof -
  define e where "e = rd_exp a b"
  define m where "m = rd_mant a b"
  have "0 \<le> m \<and> \<bar>double_val (m, e) - of_int a / of_int b\<bar> \<le> 2 powi e / 2"
  proof (cases "0 \<le> e")
    case True
    define P :: int where "P = 2 ^ nat e"
    have P: "0 < P" by (simp add: P_def)
    have m: "m = round_half_even a (b * P)"
      using True by (simp add: m_def rd_mant_def e_def[symmetric] P_def)
    have D: "0 < b * P" using assms P by simp
    have lo: "2 * a - b * P \<le> 2 * (m * (b * P))" using rhe_lower[OF D] m by simp
    have hi: "2 * (m * (b * P)) \<le> 2 * a + b * P" using rhe_upper[OF D] m by simp
    have "rat_of_int (2 * a - b * P) \<le> rat_of_int (2 * (m * (b * P)))"
      using lo by (simp only: of_int_le_iff)
    then have lo': "2 * rat_of_int a - of_int b * of_int P \<le> 2 * (of_int m * (of_int b * of_int P))"
      by simp
    have "rat_of_int (2 * (m * (b * P))) \<le> rat_of_int (2 * a + b * P)"
      using hi by (simp only: of_int_le_iff)
    then have hi': "2 * (rat_of_int m * (of_int b * of_int P)) \<le> 2 * of_int a + of_int b * of_int P"
      by simp
    have pw: "(2::rat) powi e = of_int P" using True by (simp add: P_def power_int_def)
    have bpos: "0 < rat_of_int b" using assms by simp
    have "rat_of_int m * of_int P - of_int a / of_int b \<le> of_int P / 2"
      using hi' bpos by (simp add: field_simps)
    moreover have "- (rat_of_int m * of_int P - of_int a / of_int b) \<le> of_int P / 2"
      using lo' bpos by (simp add: field_simps)
    ultimately have "\<bar>rat_of_int m * of_int P - of_int a / of_int b\<bar> \<le> of_int P / 2"
      by (rule abs_leI)
    moreover have "0 \<le> m" using m rhe_nonneg[OF D] assms by simp
    ultimately show ?thesis
      by (simp add: double_val_def pw)
  next
    case False
    define P :: int where "P = 2 ^ nat (- e)"
    have P: "0 < P" by (simp add: P_def)
    have m: "m = round_half_even (a * P) b"
      using False by (simp add: m_def rd_mant_def e_def[symmetric] P_def)
    have lo: "2 * (a * P) - b \<le> 2 * (m * b)" using rhe_lower[OF assms(2)] m by simp
    have hi: "2 * (m * b) \<le> 2 * (a * P) + b" using rhe_upper[OF assms(2)] m by simp
    have "rat_of_int (2 * (a * P) - b) \<le> rat_of_int (2 * (m * b))"
      using lo by (simp only: of_int_le_iff)
    then have lo': "2 * (rat_of_int a * of_int P) - of_int b \<le> 2 * (of_int m * of_int b)"
      by simp
    have "rat_of_int (2 * (m * b)) \<le> rat_of_int (2 * (a * P) + b)"
      using hi by (simp only: of_int_le_iff)
    then have hi': "2 * (rat_of_int m * of_int b) \<le> 2 * (of_int a * of_int P) + of_int b"
      by simp
    have pw: "(2::rat) powi e = 1 / of_int P"
      using False by (simp add: P_def power_int_def power_one_over inverse_eq_divide)
    have bpos: "0 < rat_of_int b" using assms by simp
    have Ppos: "0 < rat_of_int P" using P by simp
    have hi'': "rat_of_int P * (2 * (rat_of_int m * of_int b))
        \<le> rat_of_int P * (2 * (of_int a * of_int P) + of_int b)"
      using hi' Ppos by (intro mult_left_mono) simp_all
    have lo'': "rat_of_int P * (2 * (rat_of_int a * of_int P) - of_int b)
        \<le> rat_of_int P * (2 * (of_int m * of_int b))"
      using lo' Ppos by (intro mult_left_mono) simp_all
    have "rat_of_int m * (1 / of_int P) - of_int a / of_int b \<le> 1 / of_int P / 2"
      using hi'' bpos Ppos by (simp add: field_simps)
    moreover have "- (rat_of_int m * (1 / of_int P) - of_int a / of_int b) \<le> 1 / of_int P / 2"
      using lo'' bpos Ppos by (simp add: field_simps)
    ultimately have "\<bar>rat_of_int m * (1 / of_int P) - of_int a / of_int b\<bar> \<le> 1 / of_int P / 2"
      by (rule abs_leI)
    moreover have "0 \<le> m" using m rhe_nonneg[OF assms(2), of "a * P"] assms P by simp
    ultimately show ?thesis
      by (simp add: double_val_def pw)
  qed
  then show "0 \<le> rd_mant a b"
    and "\<bar>double_val (rd_mant a b, rd_exp a b) - of_int a / of_int b\<bar> \<le> 2 powi (rd_exp a b) / 2"
    by (simp_all add: e_def m_def)
qed

lemma rd_ulp_any:
  assumes "0 < a" "0 < b"
  shows "(2::rat) powi (rd_exp a b) / 2 \<le> of_int a / of_int b / 2 ^ 53 + 1 / 2 ^ 1075"
proof (cases "ilog2_quot a b - 52 \<le> - 1074")
  case True
  then have "rd_exp a b = - 1074" by (simp add: rd_exp_def)
  moreover have "0 \<le> rat_of_int a / of_int b / 2 ^ 53" using assms by simp
  ultimately show ?thesis by (simp add: power_int_minus inverse_eq_divide)
next
  case False
  then have e: "rd_exp a b = ilog2_quot a b - 52" by (simp add: rd_exp_def)
  have "(2::rat) powi (ilog2_quot a b - 52) / 2 = 2 powi (ilog2_quot a b) / 2 ^ 53"
    by (simp add: power_int_diff)
  also have "\<dots> \<le> of_int a / of_int b / 2 ^ 53"
    using ilog2_quot_lower[OF assms] by (simp add: divide_right_mono)
  finally show ?thesis by (simp add: e)
qed

lemma rd_ulp_normal:
  assumes "0 < a" "0 < b" "1 / 2 ^ 1022 \<le> rat_of_int a / of_int b"
  shows "(2::rat) powi (rd_exp a b) / 2 \<le> of_int a / of_int b / 2 ^ 53"
proof (cases "ilog2_quot a b - 52 \<le> - 1074")
  case True
  then have "rd_exp a b = - 1074" by (simp add: rd_exp_def)
  moreover have "(1::rat) / 2 ^ 1075 = 1 / 2 ^ 1022 / 2 ^ 53" by simp
  moreover have "(1::rat) / 2 ^ 1022 / 2 ^ 53 \<le> of_int a / of_int b / 2 ^ 53"
    using assms(3) by (rule divide_right_mono) simp
  ultimately show ?thesis by (simp add: power_int_minus inverse_eq_divide)
next
  case False
  then have e: "rd_exp a b = ilog2_quot a b - 52" by (simp add: rd_exp_def)
  have "(2::rat) powi (ilog2_quot a b - 52) / 2 = 2 powi (ilog2_quot a b) / 2 ^ 53"
    by (simp add: power_int_diff)
  also have "\<dots> \<le> of_int a / of_int b / 2 ^ 53"
    using ilog2_quot_lower[OF assms(1,2)] by (simp add: divide_right_mono)
  finally show ?thesis by (simp add: e)
qed

lemma rd_upper:
  assumes "0 < a" "0 < b"
  shows "double_val (rd_mant a b, rd_exp a b)
           \<le> of_int a / of_int b + of_int a / of_int b / 2 ^ 53 + 1 / 2 ^ 1075"
  using abs_le_D1[OF rd_err(2)[OF assms]] rd_ulp_any[OF assms] by linarith

lemma rd_lower:
  assumes "0 < a" "0 < b" "1 / 2 ^ 1022 \<le> rat_of_int a / of_int b"
  shows "of_int a / of_int b - of_int a / of_int b / 2 ^ 53 \<le> double_val (rd_mant a b, rd_exp a b)"
  using abs_le_D2[OF rd_err(2)[OF assms(1,2)]] rd_ulp_normal[OF assms] by linarith

lemma round_double_ok:
  assumes "0 < a" "0 < b" "rat_of_int a / of_int b \<le> 2 ^ 1022"
  shows "round_double a b = Inr (rd_mant a b, rd_exp a b)"
proof -
  have "\<not> (0 \<le> rd_exp a b \<and> 2 ^ 1024 \<le> rd_mant a b * 2 ^ nat (rd_exp a b))"
  proof
    assume ov: "0 \<le> rd_exp a b \<and> 2 ^ 1024 \<le> rd_mant a b * 2 ^ nat (rd_exp a b)"
    then have "rat_of_int (2 ^ 1024) \<le> of_int (rd_mant a b * 2 ^ nat (rd_exp a b))"
      by (simp only: of_int_le_iff)
    then have "(2::rat) ^ 1024 \<le> double_val (rd_mant a b, rd_exp a b)"
      using ov by (simp add: double_val_def power_int_def)
    moreover have "rat_of_int a / of_int b / 2 ^ 53 \<le> 2 ^ 1022 / 2 ^ 53"
      using assms(3) by (rule divide_right_mono) simp
    moreover have "(2::rat) ^ 1022 + 2 ^ 1022 / 2 ^ 53 + 1 / 2 ^ 1075 < 2 ^ 1024" by simp
    ultimately show False using rd_upper[OF assms(1,2)] assms(3) by linarith
  qed
  then show ?thesis using assms(1) by (simp add: round_double_eq)
qed

lemma signed_round_pos:
  "0 < a \<Longrightarrow> 0 < b \<Longrightarrow> signed_round a b = round_double a b"
  by (auto simp: signed_round_def split: sum.splits)

lemma signed_round_zero: "signed_round 0 b = Inr (0, 0)"
  by (simp add: signed_round_def round_double_def)

lemma float_floor_eq: "float_floor d = \<lfloor>double_val d\<rfloor>"
proof (cases d)
  case (Pair m e)
  show ?thesis
  proof (cases "0 \<le> e")
    case True
    then have "double_val (m, e) = of_int (m * 2 ^ nat e)"
      by (simp add: double_val_def power_int_def)
    then show ?thesis using True Pair by (simp add: float_floor_def del: of_int_mult)
  next
    case False
    then have "double_val (m, e) = of_int m / of_int (2 ^ nat (- e))"
      by (simp add: double_val_def power_int_def power_one_over inverse_eq_divide field_simps)
    then show ?thesis using False Pair
      by (simp add: float_floor_def floor_divide_of_int_eq del: of_int_power)
  qed
qed



lemma float_mul_ok:
  assumes "0 \<le> m1" "0 \<le> m2"
    and X: "X = double_val (m1, e1) * double_val (m2, e2)"
    and le: "X \<le> 2 ^ 1022"
  shows "\<exists>p. float_mul (m1, e1) (m2, e2) = Inr p \<and> 0 \<le> double_val p \<and>
           (1 / 2 ^ 1022 \<le> X \<longrightarrow> X - X / 2 ^ 53 \<le> double_val p)"
proof (cases "m1 * m2 = 0")
  case True
  then have "X = 0" by (auto simp: X double_val_def)
  moreover have "float_mul (m1, e1) (m2, e2) = Inr (0, 0)"
    using True by (auto simp add: float_mul_def signed_round_zero)
  ultimately show ?thesis by (simp add: double_val_def)
next
  case False
  then have pos: "0 < m1 * m2" using assms(1,2) by (simp add: zero_less_mult_iff less_le)
  define a b :: int where "a = (if 0 \<le> e1 + e2 then m1 * m2 * 2 ^ nat (e1 + e2) else m1 * m2)"
    and "b = (if 0 \<le> e1 + e2 then 1 else 2 ^ nat (- (e1 + e2)))"
  have a: "0 < a" and b: "0 < b" using pos by (simp_all add: a_def b_def)
  have fm: "float_mul (m1, e1) (m2, e2) = signed_round a b"
    by (simp add: float_mul_def a_def b_def)
  have "rat_of_int a / of_int b = of_int (m1 * m2) * 2 powi (e1 + e2)"
    by (simp add: a_def b_def power_int_def power_one_over inverse_eq_divide field_simps)
  also have "\<dots> = X"
    by (simp add: X double_val_def power_int_add)
  finally have ab: "rat_of_int a / of_int b = X" .
  have ok: "float_mul (m1, e1) (m2, e2) = Inr (rd_mant a b, rd_exp a b)"
    using round_double_ok[OF a b] le by (simp add: fm signed_round_pos[OF a b] ab)
  have nonneg: "0 \<le> double_val (rd_mant a b, rd_exp a b)"
    using rd_err(1)[OF a b] by (simp add: double_val_def)
  have "1 / 2 ^ 1022 \<le> X \<longrightarrow> X - X / 2 ^ 53 \<le> double_val (rd_mant a b, rd_exp a b)"
    using rd_lower[OF a b] by (simp add: ab)
  with ok nonneg show ?thesis by blast
qed

lemma true_divide_24:
  assumes "1 \<le> s"
  shows "true_divide 24 s = Inr (rd_mant 24 s, rd_exp 24 s)"
proof -
  have "rat_of_int 24 / of_int s \<le> 24" using assms by (simp add: field_simps)
  then have "rat_of_int 24 / of_int s \<le> 2 ^ 1022" by (rule order_trans) simp
  then show ?thesis
    using assms round_double_ok[of 24 s] by (simp add: true_divide_def signed_round_pos)
qed

lemma float_of_int_ok:
  assumes "1 \<le> w" "w \<le> 2 ^ 1000"
  shows "float_of_int w = Inr (rd_mant w 1, rd_exp w 1)"
proof -
  have "rat_of_int w \<le> of_int (2 ^ 1000)" using assms(2) by (simp only: of_int_le_iff)
  then have "rat_of_int w / of_int 1 \<le> 2 ^ 1022" by simp
  then show ?thesis
    using assms round_double_ok[of w 1] by (simp add: float_of_int_def signed_round_pos)
qed

lemma rnd_c_bounds: "1 / 2 \<le> rnd_c" "rnd_c \<le> 1" "0 < rnd_c"
  by (simp_all add: rnd_c_def)

lemma rnd_c_mult: "x - x / 2 ^ 53 = x * rnd_c"
  by (simp add: rnd_c_def algebra_simps)

lemma raw_width_ok:
  assumes s: "1 \<le> s" and w: "1 \<le> w" "w \<le> 2 ^ 1000"
  shows "\<exists>r. raw_width 24 s w = Inr r \<and> 1 \<le> r \<and>
           (s \<le> 2 ^ 1005 \<longrightarrow> rnd_c ^ 3 * (24 * of_int w / of_int s) - 1 < rat_of_int r)"
proof -
  define q where "q = (rd_mant 24 s, rd_exp 24 s)"
  define f where "f = (rd_mant w 1, rd_exp w 1)"
  define xq :: rat where "xq = 24 / of_int s"
  define xf :: rat where "xf = of_int w"
  have spos: "0 < s" and wpos: "0 < w" using s w by simp_all
  have tq: "true_divide 24 s = Inr q" using true_divide_24[OF s] by (simp add: q_def)
  have tf: "float_of_int w = Inr f" using float_of_int_ok[OF w] by (simp add: f_def)
  have xq_pos: "0 < xq" using spos by (simp add: xq_def)
  have xq_le: "xq \<le> 24" using s by (simp add: xq_def field_simps)
  have xf_pos: "1 \<le> xf" using w by (simp add: xf_def)
  have xf_le: "xf \<le> 2 ^ 1000"
  proof -
    have "rat_of_int w \<le> of_int (2 ^ 1000)" using w(2) by (simp only: of_int_le_iff)
    then show ?thesis by (simp add: xf_def)
  qed
  have mq: "0 \<le> rd_mant 24 s" using rd_err(1)[of 24 s] spos by simp
  have mf: "0 \<le> rd_mant w 1" using rd_err(1)[of w 1] wpos by simp
  have vq0: "0 \<le> double_val q" using mq by (simp add: q_def double_val_def)
  have vf0: "0 \<le> double_val f" using mf by (simp add: f_def double_val_def)
  have vq_hi: "double_val q \<le> xq + xq / 2 ^ 53 + 1 / 2 ^ 1075"
    using rd_upper[of 24 s] spos by (simp add: q_def xq_def)
  have vf_hi: "double_val f \<le> xf + xf / 2 ^ 53 + 1 / 2 ^ 1075"
    using rd_upper[of w 1] wpos by (simp add: f_def xf_def)
  have "xq / 2 ^ 53 \<le> 24 / 2 ^ 53" using xq_le by (rule divide_right_mono) simp
  then have vq_le: "double_val q \<le> 25" using vq_hi xq_le by simp
  have "xf / 2 ^ 53 \<le> 2 ^ 1000 / 2 ^ 53" using xf_le by (rule divide_right_mono) simp
  then have vf_le: "double_val f \<le> 2 ^ 1001" using vf_hi xf_le by simp
  define X where "X = double_val q * double_val f"
  have "X \<le> 25 * 2 ^ 1001" unfolding X_def using vq_le vf_le vq0 vf0 by (intro mult_mono) simp_all
  then have X_le: "X \<le> 2 ^ 1022" by (rule order_trans) simp
  obtain p where p: "float_mul q f = Inr p" and p0: "0 \<le> double_val p"
    and plo: "1 / 2 ^ 1022 \<le> X \<longrightarrow> X - X / 2 ^ 53 \<le> double_val p"
    using float_mul_ok[OF mq mf _ X_le[unfolded X_def q_def f_def]]
    unfolding X_def q_def f_def by blast
  define r where "r = max 1 (float_floor p)"
  have rw: "raw_width 24 s w = Inr r"
    by (simp add: raw_width_def tq tf p r_def)
  have r1: "1 \<le> r" by (simp add: r_def)
  have "rnd_c ^ 3 * (24 * of_int w / of_int s) - 1 < rat_of_int r" if sle: "s \<le> 2 ^ 1005"
  proof -
    have "rat_of_int s \<le> of_int (2 ^ 1005)" using sle by (simp only: of_int_le_iff)
    then have s_le: "rat_of_int s \<le> 2 ^ 1005" by simp
    have xq_ge: "24 / 2 ^ 1005 \<le> xq"
      unfolding xq_def using s_le spos by (intro divide_left_mono) simp_all
    then have "1 / 2 ^ 1022 \<le> xq" by (rule order_trans[rotated]) simp
    then have "1 / 2 ^ 1022 \<le> rat_of_int 24 / of_int s"
      by (simp only: xq_def of_int_numeral)
    from rd_lower[OF _ spos this, unfolded rnd_c_mult]
    have vq_lo: "xq * rnd_c \<le> double_val q"
      by (simp add: q_def xq_def)
    have "1 / 2 ^ 1022 \<le> xf" using xf_pos by (rule order_trans[rotated]) simp
    then have "1 / 2 ^ 1022 \<le> rat_of_int w / of_int 1"
      by (simp add: xf_def)
    from rd_lower[OF wpos _ this, unfolded rnd_c_mult]
    have vf_lo: "xf * rnd_c \<le> double_val f"
      by (simp add: f_def xf_def)
    have X_lo: "(xq * rnd_c) * (xf * rnd_c) \<le> X"
      unfolding X_def using vq_lo vf_lo xq_pos xf_pos rnd_c_bounds vq0
      by (intro mult_mono mult_nonneg_nonneg) simp_all
    have "(24 / 2 ^ 1005 * (1 / 2)) * (1 * (1 / 2)) \<le> (xq * rnd_c) * (xf * rnd_c)"
      using xq_ge xf_pos rnd_c_bounds xq_pos by (intro mult_mono mult_nonneg_nonneg) simp_all
    then have "1 / 2 ^ 1022 \<le> (xq * rnd_c) * (xf * rnd_c)" by (rule order_trans[rotated]) simp
    then have "1 / 2 ^ 1022 \<le> X" using X_lo by simp
    then have "X - X / 2 ^ 53 \<le> double_val p" using plo by blast
    then have "X * rnd_c \<le> double_val p" by (simp only: rnd_c_mult)
    moreover have "(xq * rnd_c) * (xf * rnd_c) * rnd_c \<le> X * rnd_c"
      using X_lo rnd_c_bounds by (intro mult_right_mono) simp_all
    ultimately have "(xq * rnd_c) * (xf * rnd_c) * rnd_c \<le> double_val p" by simp
    moreover have "(xq * rnd_c) * (xf * rnd_c) * rnd_c = rnd_c ^ 3 * (24 * of_int w / of_int s)"
      by (simp add: xq_def xf_def power3_eq_cube)
    moreover have "double_val p - 1 < of_int \<lfloor>double_val p\<rfloor>" by linarith
    moreover have "\<lfloor>double_val p\<rfloor> \<le> r" by (simp add: r_def float_floor_eq)
    then have "rat_of_int \<lfloor>double_val p\<rfloor> \<le> of_int r" by (simp only: of_int_le_iff)
    ultimately show ?thesis by linarith
  qed
  with rw r1 show ?thesis by blast
qed

lemma raw_widths_ok:
  assumes s: "1 \<le> s" and w: "\<forall>w\<in>set arr. 1 \<le> w \<and> w \<le> 2 ^ 1000"
  shows "\<exists>rs. raw_widths 24 s arr = Inr rs \<and> length rs = length arr \<and> (\<forall>r\<in>set rs. 1 \<le> r) \<and>
           (s \<le> 2 ^ 1005 \<longrightarrow>
              rnd_c ^ 3 * (24 * of_int (sum_list arr) / of_int s) - of_nat (length arr)
                \<le> rat_of_int (sum_list rs))"
  using w
proof (induction arr)
  case Nil
  then show ?case by simp
next
  case (Cons a arr)
  then obtain rs where rs: "raw_widths 24 s arr = Inr rs" "length rs = length arr"
      "\<forall>r\<in>set rs. 1 \<le> r"
      "s \<le> 2 ^ 1005 \<longrightarrow>
         rnd_c ^ 3 * (24 * of_int (sum_list arr) / of_int s) - of_nat (length arr)
           \<le> rat_of_int (sum_list rs)"
    by auto
  from Cons.prems obtain r where r: "raw_width 24 s a = Inr r" "1 \<le> r"
      "s \<le> 2 ^ 1005 \<longrightarrow> rnd_c ^ 3 * (24 * of_int a / of_int s) - 1 < rat_of_int r"
    using raw_width_ok[OF s, of a] by auto
  have "raw_widths 24 s (a # arr) = Inr (r # rs)" using r(1) rs(1) by simp
  moreover have "length (r # rs) = length (a # arr)" using rs(2) by simp
  moreover have "\<forall>x\<in>set (r # rs). 1 \<le> x" using r(2) rs(3) by simp
  moreover have "s \<le> 2 ^ 1005 \<longrightarrow>
      rnd_c ^ 3 * (24 * of_int (sum_list (a # arr)) / of_int s) - of_nat (length (a # arr))
        \<le> rat_of_int (sum_list (r # rs))"
  proof
    assume sle: "s \<le> 2 ^ 1005"
    have "rnd_c ^ 3 * (24 * of_int (sum_list (a # arr)) / of_int s)
        = rnd_c ^ 3 * (24 * of_int a / of_int s) + rnd_c ^ 3 * (24 * of_int (sum_list arr) / of_int s)"
      by (simp add: algebra_simps add_divide_distrib)
    then show "rnd_c ^ 3 * (24 * of_int (sum_list (a # arr)) / of_int s) - of_nat (length (a # arr))
        \<le> rat_of_int (sum_list (r # rs))"
      using r(3) rs(4) sle by simp
  qed
  ultimately show ?case by blast
qed

lemma sum_list_bump:
  "j < length (xs :: int list) \<Longrightarrow> sum_list (xs[j := xs ! j + 1]) = sum_list xs + 1"
  by (induction xs arbitrary: j) (auto simp: nth_Cons split: nat.splits)

lemma distribute_ok:
  "d \<le> length idx \<Longrightarrow> \<forall>j\<in>set idx. j < length res \<Longrightarrow>
   \<exists>res'. distribute idx d res = Inr res' \<and> length res' = length res \<and>
          sum_list res' = sum_list res + int d \<and> (\<forall>i<length res. res ! i \<le> res' ! i)"
proof (induction idx d res rule: distribute.induct)
  case (1 idx result)
  then show ?case by simp
next
  case (2 n result)
  then show ?case by simp
next
  case (3 j idx n result)
  let ?r = "result[j := result ! j + 1]"
  from 3 obtain res' where r: "distribute idx n ?r = Inr res'" "length res' = length ?r"
      "sum_list res' = sum_list ?r + int n" "\<forall>i<length ?r. ?r ! i \<le> res' ! i"
    by force
  have j: "j < length result" using 3(3) by simp
  have "\<forall>i<length result. result ! i \<le> res' ! i"
  proof (intro allI impI)
    fix i assume i: "i < length result"
    have "result ! i \<le> ?r ! i" using i by (cases "i = j") simp_all
    also have "\<dots> \<le> res' ! i" using r(4) i by simp
    finally show "result ! i \<le> res' ! i" .
  qed
  then show ?case using r j by (simp add: sum_list_bump)
qed

lemma sorted_idx_props:
  "length (sorted_idx result) = length result"
  "set (sorted_idx result) = {0..<length result}"
  "distinct (sorted_idx result)"
  by (simp_all add: sorted_idx_def)

lemma rnd_c_24: "23 < rnd_c ^ 3 * 24"
  by (simp add: rnd_c_def power3_eq_cube)

lemma sum_list_ge_length:
  "\<forall>x\<in>set (xs :: int list). 1 \<le> x \<Longrightarrow> int (length xs) \<le> sum_list xs"
  by (induction xs) auto

lemma sum_list_le_bound:
  "\<forall>x\<in>set (xs :: int list). x \<le> B \<Longrightarrow> sum_list xs \<le> int (length xs) * B"
  by (induction xs) (auto simp: algebra_simps)

lemma raw_shortfall_le_length:
  assumes ne: "arr \<noteq> []" and w: "\<forall>w\<in>set arr. 1 \<le> w \<and> w \<le> 2 ^ 1000"
    and raw: "raw_widths 24 (sum_list arr) arr = Inr raw"
  shows "24 - sum_list raw \<le> int (length arr)"
proof -
  define s where "s = sum_list arr"
  have n1: "1 \<le> int (length arr)" using ne by (cases arr) simp_all
  have s1: "1 \<le> s" using sum_list_ge_length[of arr] w n1 by (simp add: s_def)
  from raw_widths_ok[OF s1 w] raw obtain
    len: "length raw = length arr" and ge1: "\<forall>r\<in>set raw. 1 \<le> r"
    and lo: "s \<le> 2 ^ 1005 \<longrightarrow>
       rnd_c ^ 3 * (24 * of_int (sum_list arr) / of_int s) - of_nat (length arr)
          \<le> rat_of_int (sum_list raw)"
    by (auto simp: s_def)
  show ?thesis
  proof (cases "24 \<le> length arr")
    case True
    then show ?thesis using sum_list_ge_length[OF ge1] len by simp
  next
    case False
    have "s \<le> int (length arr) * 2 ^ 1000"
      unfolding s_def using w by (intro sum_list_le_bound) simp
    also have "\<dots> \<le> 23 * 2 ^ 1000" using False by (intro mult_right_mono) simp_all
    also have "\<dots> \<le> 2 ^ 1005" by simp
    finally have "s \<le> 2 ^ 1005" .
    with lo have "rnd_c ^ 3 * (24 * of_int (sum_list arr) / of_int s) - of_nat (length arr)
          \<le> rat_of_int (sum_list raw)" by blast
    moreover have "rat_of_int (sum_list arr) / of_int s = 1" using s1 by (simp add: s_def)
    then have "rnd_c ^ 3 * (24 * of_int (sum_list arr) / of_int s) = rnd_c ^ 3 * 24"
      by simp
    ultimately have "rnd_c ^ 3 * 24 - of_nat (length arr) \<le> rat_of_int (sum_list raw)" by simp
    with rnd_c_24 have "23 - rat_of_int (int (length arr)) < rat_of_int (sum_list raw)" by simp
    then have "rat_of_int (23 - int (length arr)) < rat_of_int (sum_list raw)" by simp
    then have "23 - int (length arr) < sum_list raw" by (simp only: of_int_less_iff)
    then show ?thesis by simp
  qed
qed

lemma cwua_total:
  assumes ne: "arr \<noteq> []" and w: "\<forall>w\<in>set arr. 1 \<le> w \<and> w \<le> 2 ^ 1000"
  shows "\<exists>raw ws. raw_widths 24 (sum_list arr) arr = Inr raw \<and>
           create_width_units_array arr 24 = Inr ws \<and> length ws = length arr \<and>
           (\<forall>x\<in>set ws. 1 \<le> x) \<and> (sum_list raw \<le> 24 \<longrightarrow> sum_list ws = 24)"
proof -
  have n1: "1 \<le> int (length arr)" using ne by (cases arr) simp_all
  have s1: "1 \<le> sum_list arr" using sum_list_ge_length[of arr] w n1 by simp
  from raw_widths_ok[OF s1 w] obtain raw where
    raw: "raw_widths 24 (sum_list arr) arr = Inr raw"
    and len: "length raw = length arr" and ge1: "\<forall>r\<in>set raw. 1 \<le> r"
    by auto
  have short: "24 - sum_list raw \<le> int (length arr)"
    by (rule raw_shortfall_le_length[OF ne w raw])
  show ?thesis
  proof (cases "0 < 24 - sum_list raw")
    case True
    have d: "nat (24 - sum_list raw) \<le> length (sorted_idx raw)"
      using short len by (simp add: sorted_idx_props)
    have v: "\<forall>j\<in>set (sorted_idx raw). j < length raw" by (simp add: sorted_idx_props)
    from distribute_ok[OF d v] obtain ws where
      ws: "distribute (sorted_idx raw) (nat (24 - sum_list raw)) raw = Inr ws"
      "length ws = length raw" "sum_list ws = sum_list raw + int (nat (24 - sum_list raw))"
      "\<forall>i<length raw. raw ! i \<le> ws ! i"
      by blast
    have "create_width_units_array arr 24 = Inr ws"
      using True raw ws(1) by (simp add: create_width_units_array_def)
    moreover have "sum_list ws = 24" using ws(3) True by simp
    moreover have "\<forall>x\<in>set ws. 1 \<le> x"
    proof
      fix x assume "x \<in> set ws"
      then obtain i where i: "i < length ws" "x = ws ! i" by (auto simp: in_set_conv_nth)
      then have "raw ! i \<le> x" using ws(2,4) by simp
      moreover have "1 \<le> raw ! i" using ge1 i ws(2) by simp
      ultimately show "1 \<le> x" by simp
    qed
    ultimately show ?thesis using raw ws(2) len by auto
  next
    case False
    then have "create_width_units_array arr 24 = Inr raw"
      using raw by (simp add: create_width_units_array_def)
    moreover have "sum_list raw \<le> 24 \<longrightarrow> sum_list raw = 24" using False by simp
    ultimately show ?thesis using raw len ge1 by auto
  qed
qed









section \<open>Properties of the width allocator\<close>

lemma raw_widths_length: "raw_widths T s arr = Inr rs \<Longrightarrow> length rs = length arr"
  by (induction arr arbitrary: rs) (auto split: sum.splits)

lemma distribute_length: "distribute idx d res = Inr res' \<Longrightarrow> length res' = length res"
  by (induction idx d res rule: distribute.induct) auto

lemma cwua_length: "create_width_units_array arr T = Inr ws \<Longrightarrow> length ws = length arr"
  by (auto simp: create_width_units_array_def Let_def raw_widths_length distribute_length
      split: sum.splits if_splits)

lemma distribute_nth:
  "distribute idx d res = Inr res' \<Longrightarrow> distinct idx \<Longrightarrow> j < length res \<Longrightarrow>
   res' ! j = res ! j + (if j \<in> set (take d idx) then 1 else 0)"
proof (induction idx d res arbitrary: res' rule: distribute.induct)
  case (1 idx result)
  then show ?case by simp
next
  case (2 n result)
  then show ?case by simp
next
  case (3 i idx n result)
  let ?r = "result[i := result ! i + 1]"
  have d: "distribute idx n ?r = Inr res'" using 3(2) by simp
  have dist: "distinct idx" and notin: "i \<notin> set idx" using 3(3) by simp_all
  have j: "j < length ?r" using 3(4) by simp
  have ih: "res' ! j = ?r ! j + (if j \<in> set (take n idx) then 1 else 0)"
    by (rule 3(1)[OF d dist j])
  show ?case
  proof (cases "j = i")
    case True
    then have "j \<notin> set (take n idx)" using notin by (auto dest: in_set_takeD)
    then show ?thesis using ih True 3(4) by simp
  next
    case False
    then show ?thesis using ih 3(4) by auto
  qed
qed

lemma insort_key_lex:
  "sorted_wrt (\<lambda>i j. f i < f j \<or> (f i = f j \<and> i < j)) ys \<Longrightarrow> \<forall>y\<in>set ys. x < y \<Longrightarrow>
   sorted_wrt (\<lambda>i j. f i < f j \<or> (f i = f j \<and> i < j)) (insort_key f x ys)"
  for f :: "nat \<Rightarrow> int"
proof (induction ys)
  case Nil
  then show ?case by simp
next
  case (Cons y ys)
  show ?case
  proof (cases "f x \<le> f y")
    case True
    have "f x < f z \<or> (f x = f z \<and> x < z)" if "z \<in> set (y # ys)" for z
    proof -
      have "f y \<le> f z" using Cons.prems(1) that by auto
      then show ?thesis using True Cons.prems(2) that by force
    qed
    then show ?thesis using True Cons.prems(1) by simp
  next
    case False
    then have "sorted_wrt (\<lambda>i j. f i < f j \<or> (f i = f j \<and> i < j)) (insort_key f x ys)"
      using Cons by simp
    then show ?thesis using False Cons.prems(1) by (auto simp: set_insort_key)
  qed
qed

lemma sort_key_lex:
  "sorted_wrt (<) xs \<Longrightarrow>
   sorted_wrt (\<lambda>i j. f i < f j \<or> (f i = f j \<and> i < j)) (sort_key f xs)"
  for f :: "nat \<Rightarrow> int"
proof (induction xs)
  case Nil
  then show ?case by simp
next
  case (Cons x xs)
  then show ?case by (simp add: sort_key_def[symmetric] insort_key_lex) 
qed

lemma sorted_idx_order:
  "sorted_wrt (\<lambda>i j. result ! j < result ! i \<or> (result ! i = result ! j \<and> i < j))
     (sorted_idx result)"
proof -
  have "sorted_wrt (<) [0..<length result]" by (simp add: sorted_wrt_upt)
  from sort_key_lex[OF this, of "\<lambda>i. - (result ! i)"] show ?thesis
    by (simp add: sorted_idx_def)
qed

lemma raw_widths_const:
  "raw_widths T s arr = Inr raw \<Longrightarrow> \<forall>w\<in>set arr. w = c \<Longrightarrow>
   \<forall>r\<in>set raw. raw_width T s c = Inr r"
proof (induction arr arbitrary: raw)
  case Nil
  then show ?case by simp
next
  case (Cons a arr)
  from Cons.prems(2) have a: "a = c" and rest: "\<forall>w\<in>set arr. w = c" by simp_all
  from Cons.prems(1) obtain r rs where r: "raw_width T s a = Inr r"
    and rs: "raw_widths T s arr = Inr rs" and raw: "raw = r # rs"
    by (auto split: sum.splits)
  from Cons.IH[OF rs rest] r a raw show ?case by simp
qed

lemma sorted_idx_const:
  assumes "\<forall>i<length result. \<forall>j<length result. result ! i = result ! j"
  shows "sorted_idx result = [0..<length result]"
proof -
  let ?idx = "sorted_idx result"
  have props: "set ?idx = {0..<length result}" "distinct ?idx" "length ?idx = length result"
    by (simp_all add: sorted_idx_def)
  have "sorted_wrt (\<lambda>i j. result ! j < result ! i \<or> (result ! i = result ! j \<and> i < j)) ?idx"
    by (rule sorted_idx_order)
  then have "sorted_wrt (<) ?idx"
  proof (rule sorted_wrt_mono_rel[rotated])
    fix i j assume "i \<in> set ?idx" "j \<in> set ?idx"
      and "result ! j < result ! i \<or> (result ! i = result ! j \<and> i < j)"
    moreover from this have "i < length result" "j < length result"
      using props(1) by simp_all
    then have "result ! i = result ! j" using assms by blast
    ultimately show "i < j" by simp
  qed
  then have "sorted ?idx" by (simp add: strict_sorted_iff)
  then show ?thesis
    using props by (intro sorted_distinct_set_unique) simp_all
qed

lemma raw_widths_all_equal:
  assumes "raw_widths T s arr = Inr raw" "\<forall>w\<in>set arr. w = c"
  shows "\<forall>i<length raw. \<forall>j<length raw. raw ! i = raw ! j"
proof (intro allI impI)
  fix i j assume i: "i < length raw" and j: "j < length raw"
  have all: "\<forall>r\<in>set raw. raw_width T s c = Inr r" by (rule raw_widths_const[OF assms])
  have "raw_width T s c = Inr (raw ! i)" using all i by simp
  moreover have "raw_width T s c = Inr (raw ! j)" using all j by simp
  ultimately show "raw ! i = raw ! j" by simp
qed

lemma in_take_upt: "j \<in> set (take d [0..<n]) \<longleftrightarrow> j < d \<and> j < n"
proof (cases "d \<le> n")
  case True
  then have "take d [0..<n] = [0..<d]" by (simp add: take_upt)
  then have "set (take d [0..<n]) = {0..<d}" by simp
  then show ?thesis using True by auto
next
  case False
  then have "take d [0..<n] = [0..<n]" by (intro take_all) simp
  then have "set (take d [0..<n]) = {0..<n}" by simp
  then show ?thesis using False by auto
qed

lemma distribution_general:
  assumes raw: "raw_widths 24 (sum_list arr) arr = Inr raw"
    and ws: "create_width_units_array arr 24 = Inr ws"
    and pos: "0 < 24 - sum_list raw"
  shows "(\<forall>j<length arr. ws ! j = raw ! j +
            (if j \<in> set (take (nat (24 - sum_list raw)) (sorted_idx raw)) then 1 else 0))"
    and "distinct (sorted_idx raw)" and "set (sorted_idx raw) = {0..<length arr}"
    and "\<forall>a b. a < b \<and> b < length arr \<longrightarrow>
           raw ! (sorted_idx raw ! b) < raw ! (sorted_idx raw ! a) \<or>
           (raw ! (sorted_idx raw ! a) = raw ! (sorted_idx raw ! b) \<and>
            sorted_idx raw ! a < sorted_idx raw ! b)"
    and "(\<forall>w\<in>set arr. w = c) \<longrightarrow>
           (\<forall>j<length arr. ws ! j = raw ! j + (if j < nat (24 - sum_list raw) then 1 else 0))"
proof -
  have len: "length raw = length arr" by (rule raw_widths_length[OF raw])
  have d: "distribute (sorted_idx raw) (nat (24 - sum_list raw)) raw = Inr ws"
    using raw ws pos by (simp add: create_width_units_array_def)
  show dist: "distinct (sorted_idx raw)" by (simp add: sorted_idx_def)
  show "set (sorted_idx raw) = {0..<length arr}" by (simp add: sorted_idx_def len)
  show nth: "\<forall>j<length arr. ws ! j = raw ! j +
            (if j \<in> set (take (nat (24 - sum_list raw)) (sorted_idx raw)) then 1 else 0)"
    using distribute_nth[OF d dist] len by simp
  have "length (sorted_idx raw) = length arr" by (simp add: sorted_idx_def len)
  then show "\<forall>a b. a < b \<and> b < length arr \<longrightarrow>
           raw ! (sorted_idx raw ! b) < raw ! (sorted_idx raw ! a) \<or>
           (raw ! (sorted_idx raw ! a) = raw ! (sorted_idx raw ! b) \<and>
            sorted_idx raw ! a < sorted_idx raw ! b)"
    using sorted_idx_order[of raw] by (simp add: sorted_wrt_iff_nth_less)
  show "(\<forall>w\<in>set arr. w = c) \<longrightarrow>
           (\<forall>j<length arr. ws ! j = raw ! j + (if j < nat (24 - sum_list raw) then 1 else 0))"
  proof (intro impI allI)
    fix j assume eq: "\<forall>w\<in>set arr. w = c" and j: "j < length arr"
    have idx: "sorted_idx raw = [0..<length raw]"
      by (rule sorted_idx_const[OF raw_widths_all_equal[OF raw eq]])
    have "j \<in> set (take (nat (24 - sum_list raw)) [0..<length raw]) \<longleftrightarrow> j < nat (24 - sum_list raw)"
      using j len by (simp add: in_take_upt)
    then show "ws ! j = raw ! j + (if j < nat (24 - sum_list raw) then 1 else 0)"
      using nth j idx by simp
  qed
qed




text \<open>
  A row outside the condition of C1 as amended: four weights of 1 and seven of 4.  The
  shares of the small panels are three quarters of a unit and are raised to 1, and the
  code has no branch for a negative shortfall: the widths returned sum to 25.
\<close>

lemma allocator_slip_example:
  "raw_widths 24 (sum_list [1, 1, 1, 1, 4, 4, 4, 4, 4, 4, 4]) [1, 1, 1, 1, 4, 4, 4, 4, 4, 4, 4]
     = Inr [1, 1, 1, 1, 3, 3, 3, 3, 3, 3, 3] \<and>
   create_width_units_array [1, 1, 1, 1, 4, 4, 4, 4, 4, 4, 4] 24
     = Inr [1, 1, 1, 1, 3, 3, 3, 3, 3, 3, 3]"
  by code_simp

text \<open>
  C2.  When the shortfall is positive, one unit goes to each of the first
  \<open>24 - sum_list raw\<close> panels in the order \<open>sorted_idx raw\<close>, which lists every position
  once, by descending raw width and, among equal widths, by ascending position; with
  all-equal weights these are the leftmost panels.  The three examples of the
  specification: \<open>[1, 2]\<close> gives \<open>[8, 16]\<close>, \<open>[1, 1, 1]\<close> gives \<open>[8, 8, 8]\<close>, and \<open>[1, 2, 2]\<close>
  has raw widths \<open>[4, 9, 9]\<close> and gives \<open>[4, 10, 10]\<close>, the two larger panels taking the
  remainder.
\<close>

theorem allocator_distribution:
  "create_width_units_array [1, 2] 24 = Inr [8, 16] \<and>
   create_width_units_array [1, 1, 1] 24 = Inr [8, 8, 8] \<and>
   raw_widths 24 (sum_list [1, 2, 2]) [1, 2, 2] = Inr [4, 9, 9] \<and>
   create_width_units_array [1, 2, 2] 24 = Inr [4, 10, 10] \<and>
   (raw_widths 24 (sum_list arr) arr = Inr raw \<and> create_width_units_array arr 24 = Inr ws \<and>
    0 < 24 - sum_list raw \<longrightarrow>
      (\<forall>j<length arr. ws ! j = raw ! j +
         (if j \<in> set (take (nat (24 - sum_list raw)) (sorted_idx raw)) then 1 else 0)) \<and>
      distinct (sorted_idx raw) \<and> set (sorted_idx raw) = {0..<length arr} \<and>
      (\<forall>a b. a < b \<and> b < length arr \<longrightarrow>
         raw ! (sorted_idx raw ! b) < raw ! (sorted_idx raw ! a) \<or>
         (raw ! (sorted_idx raw ! a) = raw ! (sorted_idx raw ! b) \<and>
          sorted_idx raw ! a < sorted_idx raw ! b)) \<and>
      ((\<forall>w\<in>set arr. w = c) \<longrightarrow>
         (\<forall>j<length arr. ws ! j = raw ! j +
            (if j < nat (24 - sum_list raw) then 1 else 0))))"
proof -
  have e1: "create_width_units_array [1, 2] 24 = Inr [8, 16]" by code_simp
  have e2: "create_width_units_array [1, 1, 1] 24 = Inr [8, 8, 8]" by code_simp
  have e3: "raw_widths 24 (sum_list [1, 2, 2]) [1, 2, 2] = Inr [4, 9, 9]" by code_simp
  have e4: "create_width_units_array [1, 2, 2] 24 = Inr [4, 10, 10]" by code_simp
  have g: "(\<forall>j<length arr. ws ! j = raw ! j +
         (if j \<in> set (take (nat (24 - sum_list raw)) (sorted_idx raw)) then 1 else 0)) \<and>
      distinct (sorted_idx raw) \<and> set (sorted_idx raw) = {0..<length arr} \<and>
      (\<forall>a b. a < b \<and> b < length arr \<longrightarrow>
         raw ! (sorted_idx raw ! b) < raw ! (sorted_idx raw ! a) \<or>
         (raw ! (sorted_idx raw ! a) = raw ! (sorted_idx raw ! b) \<and>
          sorted_idx raw ! a < sorted_idx raw ! b)) \<and>
      ((\<forall>w\<in>set arr. w = c) \<longrightarrow>
         (\<forall>j<length arr. ws ! j = raw ! j +
            (if j < nat (24 - sum_list raw) then 1 else 0)))"
    if h: "raw_widths 24 (sum_list arr) arr = Inr raw \<and>
           create_width_units_array arr 24 = Inr ws \<and> 0 < 24 - sum_list raw"
  proof -
    from h have r: "raw_widths 24 (sum_list arr) arr = Inr raw"
      and w: "create_width_units_array arr 24 = Inr ws" and p: "0 < 24 - sum_list raw"
      by simp_all
    show ?thesis
      using distribution_general(1)[OF r w p] distribution_general(2)[OF r w p]
        distribution_general(3)[OF r w p] distribution_general(4)[OF r w p]
        distribution_general(5)[OF r w p, of c]
      by (intro conjI)
  qed
  show ?thesis
    by (rule conjI[OF e1 conjI[OF e2 conjI[OF e3 conjI[OF e4 impI[OF g]]]]])
qed

theorem allocator_distribution_witness:
  "raw_widths 24 (sum_list [1, 2, 2]) [1, 2, 2] = Inr [4, 9, 9] \<and>
   create_width_units_array [1, 2, 2] 24 = Inr [4, 10, 10] \<and>
   0 < 24 - sum_list [4, 9, 9 :: int] \<and>
   distinct (sorted_idx [4, 9, 9]) \<and> set (sorted_idx [4, 9, 9]) = {0..<length [1, 2, 2 :: int]} \<and>
   [4, 10, 10] ! 1 = [4, 9, 9 :: int] ! 1 +
      (if 1 \<in> set (take (nat (24 - sum_list [4, 9, 9])) (sorted_idx [4, 9, 9])) then 1 else 0)"
proof -
  note inst = allocator_distribution[where arr = "[1, 2, 2]" and raw = "[4, 9, 9]"
      and ws = "[4, 10, 10]" and c = 0]
  have e3: "raw_widths 24 (sum_list [1, 2, 2]) [1, 2, 2] = Inr [4, 9, 9]"
    by (rule inst[THEN conjunct2, THEN conjunct2, THEN conjunct1])
  have e4: "create_width_units_array [1, 2, 2] 24 = Inr [4, 10, 10]"
    by (rule inst[THEN conjunct2, THEN conjunct2, THEN conjunct2, THEN conjunct1])
  have pos: "0 < 24 - sum_list [4, 9, 9 :: int]" by simp
  note g = inst[THEN conjunct2, THEN conjunct2, THEN conjunct2, THEN conjunct2, THEN mp,
      OF conjI[OF e3 conjI[OF e4 pos]]]
  have "(1::nat) < length [1, 2, 2 :: int]" by simp
  with g[THEN conjunct1, THEN spec, of 1]
  have nth: "[4, 10, 10] ! 1 = [4, 9, 9 :: int] ! 1 +
      (if 1 \<in> set (take (nat (24 - sum_list [4, 9, 9])) (sorted_idx [4, 9, 9])) then 1 else 0)"
    by (rule mp)
  from e3 e4 pos g[THEN conjunct2, THEN conjunct1] g[THEN conjunct2, THEN conjunct2, THEN conjunct1] nth
  show ?thesis by (intro conjI)
qed

section \<open>Properties of the panel group\<close>

lemma assign_gridPos_simps [simp]:
  "gridPos (assign_gridPos p v s) = (gridPos s)(p \<mapsto> next_cell s)"
  "cells (assign_gridPos p v s) = (cells s)(next_cell s := v)"
  "next_cell (assign_gridPos p v s) = Suc (next_cell s)"
  "groups (assign_gridPos p v s) = groups s"
  "tree_y (assign_gridPos p v s) = tree_y s"
  by (simp_all add: assign_gridPos_def)

lemma row_positions_length: "length (row_positions ws x y h) = length ws"
  by (induction ws arbitrary: x) simp_all

lemma row_positions_nth:
  "j < length ws \<Longrightarrow>
   row_positions ws x y h ! j =
     \<lparr>gp_x = x + sum_list (take j ws), gp_y = y, gp_w = ws ! j, gp_h = h\<rparr>"
proof (induction ws arbitrary: x j)
  case Nil
  then show ?case by simp
next
  case (Cons w ws)
  show ?case
  proof (cases j)
    case 0
    then show ?thesis by simp
  next
    case (Suc j')
    then have "j' < length ws" using Cons.prems by simp
    from Cons.IH[OF this, of "x + w"] Suc show ?thesis by (simp add: add.assoc)
  qed
qed

lemma place_panels_Inr:
  assumes "place_panels units cx cy rhs ri ps ix s = Inr (ix', s')"
  shows "ix' = ix + length units \<and>
    (units \<noteq> [] \<longrightarrow> ix + length units \<le> length ps \<and> ri < length rhs) \<and>
    next_cell s' = next_cell s + length units \<and>
    groups s' = groups s \<and> tree_y s' = tree_y s \<and>
    (\<forall>a. cells s' a =
           (if next_cell s \<le> a \<and> a < next_cell s + length units
            then row_positions units cx cy (rhs ! ri) ! (a - next_cell s) else cells s a)) \<and>
    (\<forall>p. p \<notin> set ps \<longrightarrow> gridPos s' p = gridPos s p) \<and>
    (distinct ps \<longrightarrow> (\<forall>k<length ps. gridPos s' (ps ! k) =
           (if ix \<le> k \<and> k < ix + length units then Some (next_cell s + (k - ix))
            else gridPos s (ps ! k))))"
  using assms
proof (induction units arbitrary: cx ix s)
  case Nil
  then show ?case by auto
next
  case (Cons w units)
  let ?v = "\<lparr>gp_x = cx, gp_y = cy, gp_w = w, gp_h = rhs ! ri\<rparr>"
  let ?s1 = "assign_gridPos (ps ! ix) ?v s"
  from Cons.prems have ix: "ix < length ps" and ri: "ri < length rhs"
    and rec: "place_panels units (cx + w) cy rhs ri ps (ix + 1) ?s1 = Inr (ix', s')"
    by (auto split: if_splits)
  note IH = Cons.IH[OF rec]
  have a: "ix' = ix + length (w # units)" using IH by simp
  have b: "ix + length (w # units) \<le> length ps \<and> ri < length rhs"
    using IH ix ri by (cases units) auto
  have c: "next_cell s' = next_cell s + length (w # units)" using IH by simp
  have d: "groups s' = groups s \<and> tree_y s' = tree_y s" using IH by simp
  have e: "cells s' a =
           (if next_cell s \<le> a \<and> a < next_cell s + length (w # units)
            then row_positions (w # units) cx cy (rhs ! ri) ! (a - next_cell s) else cells s a)" for a
  proof -
    from IH have c: "cells s' a =
           (if Suc (next_cell s) \<le> a \<and> a < Suc (next_cell s) + length units
            then row_positions units (cx + w) cy (rhs ! ri) ! (a - Suc (next_cell s))
            else cells ?s1 a)" by simp
    consider (lt) "a < next_cell s" | (eq) "a = next_cell s"
      | (mid) "Suc (next_cell s) \<le> a" "a < Suc (next_cell s) + length units"
      | (ge) "Suc (next_cell s) + length units \<le> a" by linarith
    then show ?thesis
    proof cases
      case lt then show ?thesis using c by simp
    next
      case eq then show ?thesis using c by simp
    next
      case mid
      then have "a - next_cell s = Suc (a - Suc (next_cell s))" by simp
      then show ?thesis using c mid by simp
    next
      case ge then show ?thesis using c by simp
    qed
  qed
  have f: "\<forall>p. p \<notin> set ps \<longrightarrow> gridPos s' p = gridPos s p"
    using IH ix by auto
  have g: "gridPos s' (ps ! k) =
           (if ix \<le> k \<and> k < ix + length (w # units) then Some (next_cell s + (k - ix))
            else gridPos s (ps ! k))" if dist: "distinct ps" and k: "k < length ps" for k
  proof -
    from IH dist k have g: "gridPos s' (ps ! k) =
           (if ix + 1 \<le> k \<and> k < ix + 1 + length units then Some (next_cell ?s1 + (k - (ix + 1)))
            else gridPos ?s1 (ps ! k))" by blast
    have eq: "ps ! k = ps ! ix \<longleftrightarrow> k = ix"
      using dist k ix by (simp add: nth_eq_iff_index_eq)
    show ?thesis using g eq by (auto simp: Suc_diff_Suc)
  qed
  show ?case using a b c d e f g by blast
qed

lemma place_panels_total:
  "ix + length units \<le> length ps \<Longrightarrow> ri < length rhs \<Longrightarrow>
   \<exists>s'. place_panels units cx cy rhs ri ps ix s = Inr (ix + length units, s')"
proof (induction units arbitrary: cx ix s)
  case Nil
  then show ?case by simp
next
  case (Cons w units)
  have "ix + 1 + length units \<le> length ps" using Cons.prems by simp
  from Cons.IH[OF this Cons.prems(2), of "cx + w"] Cons.prems show ?case by auto
qed

lemma cwua_Nil: "create_width_units_array [] MAX_WIDTH = Inl IndexError"
  by (simp add: create_width_units_array_def MAX_WIDTH_def sorted_idx_def eval_nat_numeral)

lemma widths_of_eq:
  "create_width_units_array (map size_value row) MAX_WIDTH = Inr ws \<Longrightarrow> widths_of row = ws"
  by (simp add: widths_of_def)

lemma layout_positions_length:
  "length wss \<le> length hs \<Longrightarrow>
   length (layout_positions wss hs y) = sum_list (map length wss)"
  by (induction wss hs y rule: layout_positions.induct) (simp_all add: row_positions_length)

lemma place_rows_Inr:
  assumes "place_rows lay ri cy rhs ps ix s = Inr s'"
  shows "(lay \<noteq> [] \<longrightarrow> ri + length lay \<le> length rhs \<and> ix + sum_list (map length lay) \<le> length ps) \<and>
         (\<forall>row\<in>set lay. row \<noteq> [] \<and>
            create_width_units_array (map size_value row) MAX_WIDTH = Inr (widths_of row)) \<and>
         next_cell s' = next_cell s + sum_list (map length lay) \<and>
         groups s' = groups s \<and> tree_y s' = tree_y s \<and>
         (\<forall>a. cells s' a =
            (if next_cell s \<le> a \<and> a < next_cell s + sum_list (map length lay)
             then layout_positions (map widths_of lay) (drop ri rhs) cy ! (a - next_cell s)
             else cells s a)) \<and>
         (\<forall>p. p \<notin> set ps \<longrightarrow> gridPos s' p = gridPos s p) \<and>
         (distinct ps \<longrightarrow> (\<forall>k<length ps. gridPos s' (ps ! k) =
            (if ix \<le> k \<and> k < ix + sum_list (map length lay) then Some (next_cell s + (k - ix))
             else gridPos s (ps ! k))))"
  using assms
proof (induction lay arbitrary: ri cy ix s)
  case Nil
  then show ?case by auto
next
  case (Cons row rest)
  from Cons.prems obtain ws ix1 s1 where
    ws: "create_width_units_array (map size_value row) MAX_WIDTH = Inr ws"
    and pp: "place_panels ws 0 cy rhs ri ps ix s = Inr (ix1, s1)"
    and ri: "ri < length rhs"
    and rec: "place_rows rest (ri + 1) (cy + (rhs ! ri + 1)) rhs ps ix1 s1 = Inr s'"
    by (auto split: sum.splits if_splits)
  have row_ne: "row \<noteq> []" using ws cwua_Nil by auto
  have wlen: "length ws = length row" using cwua_length[OF ws] by simp
  have wof: "widths_of row = ws" by (rule widths_of_eq[OF ws])
  have ws_ne: "ws \<noteq> []" using row_ne wlen by auto
  define n where "n = length ws"
  define m where "m = sum_list (map length rest)"
  define k0 where "k0 = next_cell s"
  note P = place_panels_Inr[OF pp]
  from P ws_ne have
    ix1: "ix1 = ix + n" and fit1: "ix + n \<le> length ps"
    and nc1: "next_cell s1 = k0 + n" and gt1: "groups s1 = groups s" "tree_y s1 = tree_y s"
    and cells1: "\<forall>a. cells s1 a =
           (if k0 \<le> a \<and> a < k0 + n
            then row_positions ws 0 cy (rhs ! ri) ! (a - k0) else cells s a)"
    and out1: "\<forall>p. p \<notin> set ps \<longrightarrow> gridPos s1 p = gridPos s p"
    and gp1: "distinct ps \<longrightarrow> (\<forall>k<length ps. gridPos s1 (ps ! k) =
           (if ix \<le> k \<and> k < ix + n then Some (k0 + (k - ix))
            else gridPos s (ps ! k)))"
    unfolding n_def k0_def by simp_all
  note R = Cons.IH[OF rec]
  from R have
    fit: "rest \<noteq> [] \<longrightarrow> ri + 1 + length rest \<le> length rhs \<and> ix1 + m \<le> length ps"
    and rows: "\<forall>r\<in>set rest. r \<noteq> [] \<and>
            create_width_units_array (map size_value r) MAX_WIDTH = Inr (widths_of r)"
    and nc: "next_cell s' = next_cell s1 + m"
    and gt: "groups s' = groups s1" "tree_y s' = tree_y s1"
    and cells: "\<forall>a. cells s' a =
            (if next_cell s1 \<le> a \<and> a < next_cell s1 + m
             then layout_positions (map widths_of rest) (drop (ri + 1) rhs) (cy + (rhs ! ri + 1))
                    ! (a - next_cell s1)
             else cells s1 a)"
    and out: "\<forall>p. p \<notin> set ps \<longrightarrow> gridPos s' p = gridPos s1 p"
    and gp: "distinct ps \<longrightarrow> (\<forall>k<length ps. gridPos s' (ps ! k) =
            (if ix1 \<le> k \<and> k < ix1 + m then Some (next_cell s1 + (k - ix1))
             else gridPos s1 (ps ! k)))"
    unfolding m_def by simp_all
  have dr: "drop ri rhs = rhs ! ri # drop (ri + 1) rhs"
    using ri by (simp add: Cons_nth_drop_Suc)
  let ?rp = "row_positions ws 0 cy (rhs ! ri)"
  let ?lp = "layout_positions (map widths_of rest) (drop (ri + 1) rhs) (cy + (rhs ! ri + 1))"
  have lp: "layout_positions (map widths_of (row # rest)) (drop ri rhs) cy = ?rp @ ?lp"
    by (simp add: dr wof)
  have rpl: "length ?rp = n" by (simp add: row_positions_length n_def)
  have tot: "sum_list (map length (row # rest)) = n + m" by (simp add: n_def m_def wlen)
  have fit': "ri + length (row # rest) \<le> length rhs \<and>
      ix + sum_list (map length (row # rest)) \<le> length ps"
  proof (cases rest)
    case Nil
    then show ?thesis using fit1 ri by (simp add: n_def wlen)
  next
    case (Cons r rs)
    then show ?thesis using fit ix1 unfolding tot by simp
  qed
  have c: "cells s' a =
            (if k0 \<le> a \<and> a < k0 + (n + m) then (?rp @ ?lp) ! (a - k0) else cells s a)" for a
  proof -
    consider (before) "a < k0" | (first) "k0 \<le> a" "a < k0 + n"
      | (later) "k0 + n \<le> a" "a < k0 + n + m" | (after) "k0 + n + m \<le> a"
      by linarith
    then show ?thesis
    proof cases
      case before
      then show ?thesis using cells cells1 nc1 by simp
    next
      case first
      then show ?thesis using cells cells1 nc1 by (simp add: nth_append rpl)
    next
      case later
      then have "a - k0 - n = a - (k0 + n)" by simp
      then show ?thesis using cells cells1 nc1 later by (simp add: nth_append rpl)
    next
      case after
      then show ?thesis using cells cells1 nc1 by simp
    qed
  qed
  have g: "gridPos s' (ps ! k) =
            (if ix \<le> k \<and> k < ix + (n + m) then Some (k0 + (k - ix))
             else gridPos s (ps ! k))" if dist: "distinct ps" and k: "k < length ps" for k
  proof -
    from gp1 dist k have a: "gridPos s1 (ps ! k) =
           (if ix \<le> k \<and> k < ix + n then Some (k0 + (k - ix)) else gridPos s (ps ! k))" by blast
    from gp dist k have b: "gridPos s' (ps ! k) =
            (if ix1 \<le> k \<and> k < ix1 + m then Some (next_cell s1 + (k - ix1))
             else gridPos s1 (ps ! k))" by blast
    show ?thesis using a b ix1 nc1 by auto
  qed
  have "next_cell s' = k0 + (n + m)" using nc nc1 by simp
  moreover have "groups s' = groups s \<and> tree_y s' = tree_y s" using gt gt1 by simp
  moreover have "\<forall>p. p \<notin> set ps \<longrightarrow> gridPos s' p = gridPos s p" using out out1 by simp
  moreover have "\<forall>r\<in>set (row # rest). r \<noteq> [] \<and>
            create_width_units_array (map size_value r) MAX_WIDTH = Inr (widths_of r)"
    using rows row_ne ws wof by simp
  ultimately show ?case
    using fit' c g unfolding lp tot k0_def[symmetric] by blast
qed

lemma size_value_range: "1 \<le> size_value sz \<and> size_value sz \<le> 4"
  by (cases sz) simp_all

lemma row_widths_ok:
  assumes "row \<noteq> []"
  shows "\<exists>ws. create_width_units_array (map size_value row) MAX_WIDTH = Inr ws \<and>
           length ws = length row \<and> (\<forall>x\<in>set ws. 1 \<le> x)"
proof -
  have ne: "map size_value row \<noteq> []" using assms by simp
  have rng: "\<forall>w\<in>set (map size_value row). 1 \<le> w \<and> w \<le> 2 ^ 1000"
  proof
    fix w assume "w \<in> set (map size_value row)"
    then obtain sz where "w = size_value sz" by auto
    then have "1 \<le> w \<and> w \<le> 4" using size_value_range by simp
    moreover have "(4::int) \<le> 2 ^ 1000" by simp
    ultimately show "1 \<le> w \<and> w \<le> 2 ^ 1000" by linarith
  qed
  from cwua_total[OF ne rng] show ?thesis by (auto simp: MAX_WIDTH_def)
qed

lemma place_rows_total:
  "[] \<notin> set lay \<Longrightarrow> ix + sum_list (map length lay) \<le> length ps \<Longrightarrow>
   ri + length lay \<le> length rhs \<Longrightarrow> \<exists>s'. place_rows lay ri cy rhs ps ix s = Inr s'"
proof (induction lay arbitrary: ri cy ix s)
  case Nil
  then show ?case by simp
next
  case (Cons row rest)
  have "row \<noteq> []" using Cons.prems(1) by auto
  from row_widths_ok[OF this] obtain ws where
    ws: "create_width_units_array (map size_value row) MAX_WIDTH = Inr ws"
    and wlen: "length ws = length row"
    by blast
  have ri: "ri < length rhs" using Cons.prems(3) by simp
  have "ix + length ws \<le> length ps" using Cons.prems(2) wlen by simp
  from place_panels_total[OF this ri, of 0 cy s] obtain s1 where
    pp: "place_panels ws 0 cy rhs ri ps ix s = Inr (ix + length ws, s1)" by blast
  have "\<exists>s'. place_rows rest (ri + 1) (cy + (rhs ! ri + 1)) rhs ps (ix + length ws) s1 = Inr s'"
    using Cons.prems wlen by (intro Cons.IH) simp_all
  then show ?case using ws pp ri by auto
qed

lemma layout_positions_nth:
  "i < length wss \<Longrightarrow> length wss \<le> length hs \<Longrightarrow> j < length (wss ! i) \<Longrightarrow>
   layout_positions wss hs y ! (sum_list (map length (take i wss)) + j) =
     \<lparr>gp_x = sum_list (take j (wss ! i)),
      gp_y = y + sum_list (map (\<lambda>h. h + 1) (take i hs)),
      gp_w = wss ! i ! j, gp_h = hs ! i\<rparr>"
proof (induction wss hs y arbitrary: i rule: layout_positions.induct)
  case (1 hs row_y)
  then show ?case by simp
next
  case (2 ws wss row_y)
  then show ?case by simp
next
  case (3 ws wss h hs row_y)
  show ?case
  proof (cases i)
    case 0
    then show ?thesis using 3(4)
      by (simp add: nth_append row_positions_length row_positions_nth)
  next
    case (Suc i')
    then have i': "i' < length wss" and le: "length wss \<le> length hs"
      and j: "j < length (wss ! i')"
      using 3(2,3,4) by simp_all
    from 3(1)[OF i' le j] Suc show ?thesis
      by (simp add: nth_append row_positions_length add.assoc)
  qed
qed

lemma PanelGroup_init_Inr:
  assumes "PanelGroup_init layout ps y rh r s = Inr (g, s')"
  shows "\<exists>l. layout = Some l \<and> normalize_layout l (length ps) = Inr (pg_layout g)"
    and "sum_list (map length (pg_layout g)) = length ps"
    and "length (pg_row_heights g) = length (pg_layout g)"
    and "case rh of Heights hs \<Rightarrow> pg_row_heights g = hs
         | Height h \<Rightarrow> pg_row_heights g = replicate (length (pg_layout g)) h"
    and "pg_y g = (case y of None \<Rightarrow> 0 | Some v \<Rightarrow> v)"
    and "pg_height g = sum_list (pg_row_heights g) + int (length (pg_row_heights g))
           + (if r \<noteq> None then 2 else 0)"
    and "pg_row g = r" and "pg_panels g = ps"
    and "place_rows (pg_layout g) 0 (pg_y g + (if r = None then 0 else 2))
           (pg_row_heights g) ps 0
           (case r of None \<Rightarrow> s
            | Some rp \<Rightarrow> assign_gridPos rp \<lparr>gp_x = 0, gp_y = pg_y g, gp_w = MAX_WIDTH, gp_h = 1\<rparr> s)
         = Inr s'"
proof -
  from assms obtain l lay hs where l: "layout = Some l"
    and lay: "normalize_layout l (length ps) = Inr lay"
    and cnt: "sum_list (map length lay) = length ps"
    and hs: "(case rh of Heights h \<Rightarrow> if length h = length lay then Inr h else Inl AssertionError
              | Height h \<Rightarrow> Inr (replicate (length lay) h)) = Inr hs"
    and g: "g = \<lparr>pg_layout = lay, pg_row_heights = hs, pg_row = r,
                pg_y = (case y of None \<Rightarrow> 0 | Some v \<Rightarrow> v),
                pg_height = sum_list hs + int (length hs) + (if r \<noteq> None then 2 else 0),
                pg_panels = ps\<rparr>"
    and cg: "compute_grid_pos g s = Inr s'"
    by (auto simp: PanelGroup_init_def Let_def split: option.splits sum.splits if_splits)
  have hs': "length hs = length lay \<and>
      (case rh of Heights h \<Rightarrow> hs = h | Height h \<Rightarrow> hs = replicate (length lay) h)"
    using hs by (auto split: heights_arg.splits if_splits)
  show "\<exists>l. layout = Some l \<and> normalize_layout l (length ps) = Inr (pg_layout g)"
    using l lay g by simp
  show "sum_list (map length (pg_layout g)) = length ps" using cnt g by simp
  show "length (pg_row_heights g) = length (pg_layout g)" using hs' g by simp
  show "case rh of Heights hs \<Rightarrow> pg_row_heights g = hs
         | Height h \<Rightarrow> pg_row_heights g = replicate (length (pg_layout g)) h"
    using hs' g by (auto split: heights_arg.splits)
  show "pg_y g = (case y of None \<Rightarrow> 0 | Some v \<Rightarrow> v)" using g by simp
  show "pg_height g = sum_list (pg_row_heights g) + int (length (pg_row_heights g))
           + (if r \<noteq> None then 2 else 0)"
    using g by simp
  show "pg_row g = r" using g by simp
  show "pg_panels g = ps" using g by simp
  show "place_rows (pg_layout g) 0 (pg_y g + (if r = None then 0 else 2))
           (pg_row_heights g) ps 0
           (case r of None \<Rightarrow> s
            | Some rp \<Rightarrow> assign_gridPos rp \<lparr>gp_x = 0, gp_y = pg_y g, gp_w = MAX_WIDTH, gp_h = 1\<rparr> s)
         = Inr s'"
    using cg g by (cases r) (simp_all add: compute_grid_pos_def)
qed

lemma PanelGroup_init_succeeds_iff:
  "(\<exists>g s'. PanelGroup_init layout ps y rh r s = Inr (g, s')) \<longleftrightarrow>
   (\<exists>l lay. layout = Some l \<and> normalize_layout l (length ps) = Inr lay \<and>
      sum_list (map length lay) = length ps \<and>
      (\<forall>hs. rh = Heights hs \<longrightarrow> length hs = length lay) \<and> [] \<notin> set lay)"
proof
  assume "\<exists>g s'. PanelGroup_init layout ps y rh r s = Inr (g, s')"
  then obtain g s' where init: "PanelGroup_init layout ps y rh r s = Inr (g, s')" by blast
  note f = PanelGroup_init_Inr[OF init]
  note p = place_rows_Inr[OF f(9)]
  from f(1) obtain l where l: "layout = Some l"
    "normalize_layout l (length ps) = Inr (pg_layout g)" by blast
  have "\<forall>hs. rh = Heights hs \<longrightarrow> length hs = length (pg_layout g)"
    using f(3,4) by auto
  moreover have "[] \<notin> set (pg_layout g)" using p by blast
  ultimately show "\<exists>l lay. layout = Some l \<and> normalize_layout l (length ps) = Inr lay \<and>
      sum_list (map length lay) = length ps \<and>
      (\<forall>hs. rh = Heights hs \<longrightarrow> length hs = length lay) \<and> [] \<notin> set lay"
    using l f(2) by blast
next
  assume "\<exists>l lay. layout = Some l \<and> normalize_layout l (length ps) = Inr lay \<and>
      sum_list (map length lay) = length ps \<and>
      (\<forall>hs. rh = Heights hs \<longrightarrow> length hs = length lay) \<and> [] \<notin> set lay"
  then obtain l lay where l: "layout = Some l"
    and lay: "normalize_layout l (length ps) = Inr lay"
    and cnt: "sum_list (map length lay) = length ps"
    and rh: "\<forall>hs. rh = Heights hs \<longrightarrow> length hs = length lay"
    and ne: "[] \<notin> set lay"
    by blast
  define hs where "hs = (case rh of Heights h \<Rightarrow> h | Height h \<Rightarrow> replicate (length lay) h)"
  have hlen: "length hs = length lay" using rh by (cases rh) (simp_all add: hs_def)
  have hsel: "(case rh of Heights h \<Rightarrow> if length h = length lay then Inr h else Inl AssertionError
              | Height h \<Rightarrow> Inr (replicate (length lay) h)) = (Inr hs :: error + int list)"
    using rh by (cases rh) (simp_all add: hs_def)
  define g where "g = \<lparr>pg_layout = lay, pg_row_heights = hs, pg_row = r,
                pg_y = (case y of None \<Rightarrow> 0 | Some v \<Rightarrow> v),
                pg_height = sum_list hs + int (length hs) + (if r \<noteq> None then 2 else 0),
                pg_panels = ps\<rparr>"
  have "\<exists>s'. place_rows lay 0 cy hs ps 0 s1 = Inr s'" for cy s1
    using ne cnt hlen by (intro place_rows_total) simp_all
  then have "\<exists>s'. compute_grid_pos g s = Inr s'"
    by (cases r) (simp_all add: compute_grid_pos_def g_def)
  then obtain s' where cg: "compute_grid_pos g s = Inr s'" ..
  have "PanelGroup_init layout ps y rh r s = Inr (g, s')"
    using l lay cnt hsel cg unfolding g_def by (simp add: PanelGroup_init_def Let_def)
  then show "\<exists>g s'. PanelGroup_init layout ps y rh r s = Inr (g, s')" by blast
qed

lemma row_start_bound:
  "i < length lay \<Longrightarrow> j < length (lay ! i) \<Longrightarrow>
   sum_list (map length (take i lay)) + j < sum_list (map length lay)"
proof -
  assume i: "i < length lay" and j: "j < length (lay ! i)"
  have "lay = take i lay @ lay ! i # drop (Suc i) lay" using i by (rule id_take_nth_drop)
  then have "sum_list (map length lay) =
      sum_list (map length (take i lay @ lay ! i # drop (Suc i) lay))"
    by simp
  then have "sum_list (map length lay) =
      sum_list (map length (take i lay)) + length (lay ! i) + sum_list (map length (drop (Suc i) lay))"
    by simp
  then show ?thesis using j by simp
qed

text \<open>The store after construction, for a list of distinct panels that the row is not in.\<close>

lemma group_store:
  assumes init: "PanelGroup_init layout ps y rh r s = Inr (g, s')"
  shows "next_cell s' = next_cell s + (if r = None then 0 else 1) + length ps"
    and "groups s' = groups s" and "tree_y s' = tree_y s"
    and "\<forall>a<next_cell s. cells s' a = cells s a"
    and "\<forall>p. p \<notin> set ps \<and> Some p \<noteq> r \<longrightarrow> gridPos s' p = gridPos s p"
    and "distinct ps \<longrightarrow> (\<forall>k<length ps. pos s' (ps ! k) =
           Some (layout_positions (map widths_of (pg_layout g)) (pg_row_heights g)
                   (pg_y g + (if r = None then 0 else 2)) ! k))"
    and "\<forall>rp. r = Some rp \<and> rp \<notin> set ps \<longrightarrow>
           pos s' rp = Some \<lparr>gp_x = 0, gp_y = pg_y g, gp_w = 24, gp_h = 1\<rparr>"
proof -
  note f = PanelGroup_init_Inr[OF init]
  define s1 where "s1 = (case r of None \<Rightarrow> s
            | Some rp \<Rightarrow> assign_gridPos rp \<lparr>gp_x = 0, gp_y = pg_y g, gp_w = MAX_WIDTH, gp_h = 1\<rparr> s)"
  define hdr :: nat where "hdr = (if r = None then 0 else 1)"
  let ?lp = "layout_positions (map widths_of (pg_layout g)) (pg_row_heights g)
                   (pg_y g + (if r = None then 0 else 2))"
  have pr: "place_rows (pg_layout g) 0 (pg_y g + (if r = None then 0 else 2))
           (pg_row_heights g) ps 0 s1 = Inr s'"
    using f(9) by (simp add: s1_def)
  note p = place_rows_Inr[OF pr]
  have nc1: "next_cell s1 = next_cell s + hdr" by (cases r) (simp_all add: s1_def hdr_def)
  have gt1: "groups s1 = groups s" "tree_y s1 = tree_y s" by (cases r; simp add: s1_def)+
  have c1: "\<forall>a<next_cell s. cells s1 a = cells s a" by (cases r) (simp_all add: s1_def)
  have g1: "\<forall>p. Some p \<noteq> r \<longrightarrow> gridPos s1 p = gridPos s p"
    by (cases r) (auto simp: s1_def)
  from p have nc: "next_cell s' = next_cell s1 + sum_list (map length (pg_layout g))"
    and gt: "groups s' = groups s1" "tree_y s' = tree_y s1"
    and cells: "\<forall>a. cells s' a =
            (if next_cell s1 \<le> a \<and> a < next_cell s1 + sum_list (map length (pg_layout g))
             then ?lp ! (a - next_cell s1) else cells s1 a)"
    and out: "\<forall>p. p \<notin> set ps \<longrightarrow> gridPos s' p = gridPos s1 p"
    and gp: "distinct ps \<longrightarrow> (\<forall>k<length ps. gridPos s' (ps ! k) =
            (if 0 \<le> k \<and> k < 0 + sum_list (map length (pg_layout g)) then Some (next_cell s1 + (k - 0))
             else gridPos s1 (ps ! k)))"
    by simp_all
  show "next_cell s' = next_cell s + (if r = None then 0 else 1) + length ps"
    using nc nc1 f(2) by (simp add: hdr_def)
  show "groups s' = groups s" using gt gt1 by simp
  show "tree_y s' = tree_y s" using gt gt1 by simp
  show "\<forall>a<next_cell s. cells s' a = cells s a" using cells c1 nc1 by simp
  show "\<forall>p. p \<notin> set ps \<and> Some p \<noteq> r \<longrightarrow> gridPos s' p = gridPos s p"
    using out g1 by simp
  show "distinct ps \<longrightarrow> (\<forall>k<length ps. pos s' (ps ! k) = Some (?lp ! k))"
  proof (intro impI allI)
    fix k assume d: "distinct ps" and k: "k < length ps"
    have "gridPos s' (ps ! k) = Some (next_cell s1 + k)" using gp d k f(2) by simp
    moreover have "cells s' (next_cell s1 + k) = ?lp ! k" using cells k f(2) by simp
    ultimately show "pos s' (ps ! k) = Some (?lp ! k)" by (simp add: pos_def)
  qed
  show "\<forall>rp. r = Some rp \<and> rp \<notin> set ps \<longrightarrow>
           pos s' rp = Some \<lparr>gp_x = 0, gp_y = pg_y g, gp_w = 24, gp_h = 1\<rparr>"
  proof (intro allI impI)
    fix rp assume a: "r = Some rp \<and> rp \<notin> set ps"
    then have s1: "s1 = assign_gridPos rp \<lparr>gp_x = 0, gp_y = pg_y g, gp_w = MAX_WIDTH, gp_h = 1\<rparr> s"
      by (simp add: s1_def)
    have "gridPos s' rp = Some (next_cell s)" using out a s1 by simp
    moreover have "cells s' (next_cell s) = \<lparr>gp_x = 0, gp_y = pg_y g, gp_w = 24, gp_h = 1\<rparr>"
      using cells s1 by (simp add: MAX_WIDTH_def)
    ultimately show "pos s' rp = Some \<lparr>gp_x = 0, gp_y = pg_y g, gp_w = 24, gp_h = 1\<rparr>"
      by (simp add: pos_def)
  qed
qed

lemma group_rows:
  assumes init: "PanelGroup_init layout ps y rh r s = Inr (g, s')" and d: "distinct ps"
  shows "\<forall>i<length (pg_layout g). \<exists>ws.
           create_width_units_array (map size_value (pg_layout g ! i)) 24 = Inr ws \<and>
           length ws = length (pg_layout g ! i) \<and> (\<forall>x\<in>set ws. 1 \<le> x) \<and>
           (\<forall>j<length ws.
              pos s' (ps ! (sum_list (map length (take i (pg_layout g))) + j)) =
                Some \<lparr>gp_x = sum_list (take j ws),
                      gp_y = pg_y g + (if r = None then 0 else 2)
                               + sum_list (map (\<lambda>h. h + 1) (take i (pg_row_heights g))),
                      gp_w = ws ! j, gp_h = pg_row_heights g ! i\<rparr>)"
proof (intro allI impI)
  note f = PanelGroup_init_Inr[OF init] and st = group_store[OF init]
  note p = place_rows_Inr[OF f(9)]
  let ?lay = "pg_layout g" and ?hs = "pg_row_heights g"
  let ?wss = "map widths_of ?lay"
  have rows: "\<forall>row\<in>set ?lay. row \<noteq> [] \<and>
            create_width_units_array (map size_value row) MAX_WIDTH = Inr (widths_of row)"
    using p by blast
  have wlen: "length (widths_of row) = length row" if "row \<in> set ?lay" for row
    using rows that cwua_length[of "map size_value row" MAX_WIDTH "widths_of row"] by simp
  then have lens: "map length ?wss = map length ?lay" by simp
  fix i assume i: "i < length ?lay"
  let ?row = "?lay ! i" and ?ws = "widths_of (?lay ! i)"
  have mem: "?row \<in> set ?lay" using i by simp
  have ok: "create_width_units_array (map size_value ?row) MAX_WIDTH = Inr ?ws"
    and ne: "?row \<noteq> []"
    using rows mem by simp_all
  have len: "length ?ws = length ?row" by (rule wlen[OF mem])
  have ge1: "\<forall>x\<in>set ?ws. 1 \<le> x" using row_widths_ok[OF ne] ok by auto
  have "map length (take i ?wss) = take i (map length ?wss)" by (simp only: take_map)
  also have "\<dots> = take i (map length ?lay)" by (simp only: lens)
  also have "\<dots> = map length (take i ?lay)" by (simp only: take_map)
  finally have start: "sum_list (map length (take i ?wss)) = sum_list (map length (take i ?lay))"
    by (rule arg_cong)
  have "pos s' (ps ! (sum_list (map length (take i ?lay)) + j)) =
                Some \<lparr>gp_x = sum_list (take j ?ws),
                      gp_y = pg_y g + (if r = None then 0 else 2)
                               + sum_list (map (\<lambda>h. h + 1) (take i ?hs)),
                      gp_w = ?ws ! j, gp_h = ?hs ! i\<rparr>" if j: "j < length ?ws" for j
  proof -
    have j': "j < length ?row" using j len by simp
    have k: "sum_list (map length (take i ?lay)) + j < length ps"
      using row_start_bound[OF i j'] f(2) by simp
    have "layout_positions ?wss ?hs (pg_y g + (if r = None then 0 else 2))
            ! (sum_list (map length (take i ?wss)) + j) =
          \<lparr>gp_x = sum_list (take j (?wss ! i)),
           gp_y = pg_y g + (if r = None then 0 else 2)
                    + sum_list (map (\<lambda>h. h + 1) (take i ?hs)),
           gp_w = ?wss ! i ! j, gp_h = ?hs ! i\<rparr>"
      using i j f(3) by (intro layout_positions_nth) simp_all
    then show ?thesis using st(6) d k i by (simp add: start)
  qed
  then show "\<exists>ws. create_width_units_array (map size_value ?row) 24 = Inr ws \<and>
           length ws = length ?row \<and> (\<forall>x\<in>set ws. 1 \<le> x) \<and>
           (\<forall>j<length ws.
              pos s' (ps ! (sum_list (map length (take i ?lay)) + j)) =
                Some \<lparr>gp_x = sum_list (take j ws),
                      gp_y = pg_y g + (if r = None then 0 else 2)
                               + sum_list (map (\<lambda>h. h + 1) (take i ?hs)),
                      gp_w = ws ! j, gp_h = ?hs ! i\<rparr>)"
    using ok len ge1 by (intro exI[of _ ?ws]) (simp add: MAX_WIDTH_def)
qed

lemma shift_add: "shift d (shift e q) = shift (e + d) q"
  by (simp add: shift_def)

lemma shift_zero: "shift 0 q = q"
  by (simp add: shift_def)

lemma shift_panels_Inr:
  "shift_panels d ps s = Inr s' \<Longrightarrow>
   (\<forall>p\<in>set ps. gridPos s p \<noteq> None) \<and>
   s' = s\<lparr>cells := \<lambda>a. shift (d * int (count_list (map (gridPos s) ps) (Some a))) (cells s a)\<rparr>"
proof (induction ps arbitrary: s)
  case Nil
  then show ?case by (simp add: shift_zero)
next
  case (Cons p ps)
  from Cons.prems obtain a where a: "gridPos s p = Some a"
    and rec: "shift_panels d ps (s\<lparr>cells := (cells s)(a := (cells s a)\<lparr>gp_y := gp_y (cells s a) + d\<rparr>)\<rparr>) = Inr s'"
    by (auto simp: shift_panel_def split: option.splits)
  let ?s1 = "s\<lparr>cells := (cells s)(a := (cells s a)\<lparr>gp_y := gp_y (cells s a) + d\<rparr>)\<rparr>"
  from Cons.IH[OF rec] have all: "\<forall>p\<in>set ps. gridPos s p \<noteq> None"
    and s': "s' = ?s1\<lparr>cells := \<lambda>b. shift (d * int (count_list (map (gridPos s) ps) (Some b))) (cells ?s1 b)\<rparr>"
    by simp_all
  have "(\<lambda>b. shift (d * int (count_list (map (gridPos s) ps) (Some b))) (cells ?s1 b)) =
        (\<lambda>b. shift (d * int (count_list (map (gridPos s) (p # ps)) (Some b))) (cells s b))"
    by (rule ext) (simp add: a shift_def algebra_simps)
  then have "s' = s\<lparr>cells := \<lambda>b. shift (d * int (count_list (map (gridPos s) (p # ps)) (Some b))) (cells s b)\<rparr>"
    using s' by simp
  then show ?case using all a by simp
qed

lemma shift_panels_total:
  "\<forall>p\<in>set ps. gridPos s p \<noteq> None \<Longrightarrow> \<exists>s'. shift_panels d ps s = Inr s'"
proof (induction ps arbitrary: s)
  case Nil
  then show ?case by simp
next
  case (Cons p ps)
  from Cons.prems obtain a where a: "gridPos s p = Some a" by auto
  let ?s1 = "s\<lparr>cells := (cells s)(a := (cells s a)\<lparr>gp_y := gp_y (cells s a) + d\<rparr>)\<rparr>"
  have "\<forall>p\<in>set ps. gridPos ?s1 p \<noteq> None" using Cons.prems by simp
  from Cons.IH[OF this] show ?case using a by (simp add: shift_panel_def)
qed

lemma PanelGroup_set_y_items:
  "PanelGroup_set_y g y s =
     (if \<not> 0 \<le> y then Inl AssertionError
      else case shift_panels (y - pg_y g) (items g) s of
             Inl err \<Rightarrow> Inl err
           | Inr s' \<Rightarrow> Inr (g\<lparr>pg_y := y\<rparr>, s'))"
  by (cases "pg_row g") (simp_all add: PanelGroup_set_y_def items_def Let_def split: sum.splits)

lemma PanelGroup_set_y_Inr:
  assumes "PanelGroup_set_y g y s = Inr (g', s')"
  shows "0 \<le> y" and "\<forall>p\<in>set (items g). gridPos s p \<noteq> None" and "g' = g\<lparr>pg_y := y\<rparr>"
    and "s' = s\<lparr>cells := \<lambda>a. shift ((y - pg_y g) * int (count_list (map (gridPos s) (items g)) (Some a)))
                              (cells s a)\<rparr>"
proof -
  from assms have y: "0 \<le> y" and sp: "shift_panels (y - pg_y g) (items g) s = Inr s'"
    and g': "g' = g\<lparr>pg_y := y\<rparr>"
    by (auto simp: PanelGroup_set_y_items split: if_splits sum.splits)
  show "0 \<le> y" by (rule y)
  show "g' = g\<lparr>pg_y := y\<rparr>" by (rule g')
  show "\<forall>p\<in>set (items g). gridPos s p \<noteq> None" using shift_panels_Inr[OF sp] by blast
  show "s' = s\<lparr>cells := \<lambda>a. shift ((y - pg_y g) * int (count_list (map (gridPos s) (items g)) (Some a)))
                              (cells s a)\<rparr>"
    using shift_panels_Inr[OF sp] by blast
qed

lemma PanelGroup_set_y_total:
  assumes "0 \<le> y" and "\<forall>p\<in>set (items g). gridPos s p \<noteq> None"
  shows "\<exists>s'. PanelGroup_set_y g y s = Inr (g\<lparr>pg_y := y\<rparr>, s')"
  using shift_panels_total[OF assms(2), of "y - pg_y g"] assms(1)
  by (auto simp: PanelGroup_set_y_items)

lemma count_list_distinct:
  "distinct xs \<Longrightarrow> count_list xs x = (if x \<in> set xs then 1 else 0)"
  by (induction xs) auto

text \<open>
  C8 (as amended).  \<open>set_y\<close> of a group fails for a negative argument; otherwise, on a
  group all of whose panels (and row header) have a position, no two of them being one
  object or sharing one \<^verbatim>\<open>GridPos\<close> object, it moves the \<open>y\<close> of every panel and of the
  row header by the new origin minus the old one, leaves their \<open>x\<close>, width and height,
  stores the new origin and changes nothing else.
\<close>

theorem group_set_y:
  "(y < 0 \<longrightarrow> PanelGroup_set_y g y s = Inl AssertionError) \<and>
   (0 \<le> y \<and> (\<forall>p\<in>set (items g). gridPos s p \<noteq> None) \<and> distinct (map (gridPos s) (items g)) \<longrightarrow>
      (\<exists>s'. PanelGroup_set_y g y s = Inr (g\<lparr>pg_y := y\<rparr>, s') \<and>
         (\<forall>p\<in>set (items g). \<exists>q. pos s p = Some q \<and>
            pos s' p = Some (q\<lparr>gp_y := gp_y q + (y - pg_y g)\<rparr>)) \<and>
         (\<forall>a. Some a \<notin> set (map (gridPos s) (items g)) \<longrightarrow> cells s' a = cells s a) \<and>
         gridPos s' = gridPos s \<and> next_cell s' = next_cell s \<and>
         groups s' = groups s \<and> tree_y s' = tree_y s))"
proof (intro conjI impI)
  assume "y < 0"
  then show "PanelGroup_set_y g y s = Inl AssertionError"
    by (simp add: PanelGroup_set_y_def)
next
  assume a: "0 \<le> y \<and> (\<forall>p\<in>set (items g). gridPos s p \<noteq> None) \<and>
    distinct (map (gridPos s) (items g))"
  then have y: "0 \<le> y" and ps: "\<forall>p\<in>set (items g). gridPos s p \<noteq> None"
    and d: "distinct (map (gridPos s) (items g))" by simp_all
  from PanelGroup_set_y_total[OF y ps] obtain s' where
    r: "PanelGroup_set_y g y s = Inr (g\<lparr>pg_y := y\<rparr>, s')" by blast
  note f = PanelGroup_set_y_Inr[OF r]
  let ?refs = "map (gridPos s) (items g)"
  have cells: "cells s' a = shift ((y - pg_y g) * (if Some a \<in> set ?refs then 1 else 0)) (cells s a)" for a
    using f(4) count_list_distinct[OF d, of "Some a"] by simp
  have gp: "gridPos s' = gridPos s" using f(4) by simp
  have moved: "\<exists>q. pos s p = Some q \<and> pos s' p = Some (q\<lparr>gp_y := gp_y q + (y - pg_y g)\<rparr>)"
    if p: "p \<in> set (items g)" for p
  proof -
    from ps p obtain b where b: "gridPos s p = Some b" by auto
    then have "Some b \<in> set ?refs" using p by force
    then have "cells s' b = shift (y - pg_y g) (cells s b)" using cells[of b] by simp
    then show ?thesis using b gp by (simp add: pos_def shift_def)
  qed
  have frame: "\<forall>a. Some a \<notin> set ?refs \<longrightarrow> cells s' a = cells s a"
    using cells by (simp add: shift_zero)
  have rest: "next_cell s' = next_cell s \<and> groups s' = groups s \<and> tree_y s' = tree_y s"
    using f(4) by simp
  show "\<exists>s'. PanelGroup_set_y g y s = Inr (g\<lparr>pg_y := y\<rparr>, s') \<and>
         (\<forall>p\<in>set (items g). \<exists>q. pos s p = Some q \<and>
            pos s' p = Some (q\<lparr>gp_y := gp_y q + (y - pg_y g)\<rparr>)) \<and>
         (\<forall>a. Some a \<notin> set (map (gridPos s) (items g)) \<longrightarrow> cells s' a = cells s a) \<and>
         gridPos s' = gridPos s \<and> next_cell s' = next_cell s \<and>
         groups s' = groups s \<and> tree_y s' = tree_y s"
    using r moved frame gp rest by blast
qed

lemma sum_length_replicate:
  "sum_list (map length (replicate k (xs :: 'b list))) = k * length xs"
  by (induction k) simp_all

lemma normalize_Flat:
  "normalize_layout (Flat sizes) n = Inr lay \<longleftrightarrow>
     sizes \<noteq> [] \<and> lay = replicate (n div length sizes) sizes"
  by (cases sizes) auto

lemma normalize_Nested:
  "normalize_layout (Nested rows) n = Inr lay \<longleftrightarrow> rows \<noteq> [] \<and> lay = rows"
  by (cases rows) auto

lemma Inr_fst: "map_sum id fst x = Inr g \<Longrightarrow> \<exists>s'. x = Inr (g, s')"
  by (cases x) auto

lemma Inl_unit: "map_sum id (\<lambda>u. ()) x = Inl e \<Longrightarrow> x = Inl e"
  by (cases x) auto



text \<open>
  C5 (as amended).  Construction of a group fails exactly when the layout is \<open>None\<close> or
  empty, or a flat layout of length L meets a panel count that is not a multiple of L,
  or the panel count of a nested layout differs from the number of panels, or
  \<open>row_heights\<close> is a list whose length is not the row count, or a nested layout
  contains an empty row.
\<close>

theorem construction_fails_iff:
  "(\<exists>err. PanelGroup_init layout ps y rh r s = Inl err) \<longleftrightarrow>
   (layout = None \<or>
    (\<exists>sizes. layout = Some (Flat sizes) \<and>
       (sizes = [] \<or> \<not> length sizes dvd length ps \<or>
        (\<exists>hs. rh = Heights hs \<and> length hs \<noteq> length ps div length sizes))) \<or>
    (\<exists>rows. layout = Some (Nested rows) \<and>
       (rows = [] \<or> sum_list (map length rows) \<noteq> length ps \<or>
        (\<exists>hs. rh = Heights hs \<and> length hs \<noteq> length rows) \<or> [] \<in> set rows)))"
proof -
  have fail: "(\<exists>err. PanelGroup_init layout ps y rh r s = Inl err) \<longleftrightarrow>
      \<not> (\<exists>g s'. PanelGroup_init layout ps y rh r s = Inr (g, s'))"
    by (cases "PanelGroup_init layout ps y rh r s") auto
  show ?thesis
  proof (cases layout)
    case None
    then show ?thesis unfolding fail PanelGroup_init_succeeds_iff by simp
  next
    case (Some l)
    show ?thesis
    proof (cases l)
      case (Flat sizes)
      show ?thesis
      proof (cases "sizes = []")
        case True
        then show ?thesis unfolding fail PanelGroup_init_succeeds_iff
          by (simp add: Some Flat normalize_Flat)
      next
        case False
        have cnt: "sum_list (replicate (length ps div length sizes) (length sizes)) = length ps
            \<longleftrightarrow> length sizes dvd length ps"
        proof -
          have "sum_list (replicate (length ps div length sizes) (length sizes)) =
              length ps div length sizes * length sizes"
            by (simp add: sum_list_replicate)
          moreover have "length ps div length sizes * length sizes = length ps \<longleftrightarrow>
              length sizes dvd length ps"
          proof
            assume h: "length ps div length sizes * length sizes = length ps"
            have "length sizes dvd length ps div length sizes * length sizes" by simp
            then show "length sizes dvd length ps" by (simp only: h)
          next
            assume "length sizes dvd length ps"
            then show "length ps div length sizes * length sizes = length ps" by simp
          qed
          ultimately show ?thesis by simp
        qed
        have mem: "[] \<notin> set (replicate (length ps div length sizes) sizes)"
          using False by auto
        show ?thesis unfolding fail PanelGroup_init_succeeds_iff
          using False cnt mem
          by (auto simp: Some Flat normalize_Flat sum_length_replicate)
      qed
    next
      case (Nested rows)
      show ?thesis unfolding fail PanelGroup_init_succeeds_iff
        by (auto simp: Some Nested normalize_Nested)
    qed
  qed
qed

theorem construction_fails_iff_witness:
  "\<exists>err. PanelGroup_init (Some (Flat [SMALL, SMALL])) [0, 1, 2] None (Height 8) None empty_store
      = Inl err"
proof -
  have "\<not> length [SMALL, SMALL] dvd length [0 :: nat, 1, 2]"
    by code_simp
  then show ?thesis
    unfolding construction_fails_iff by blast
qed

text \<open>
  C5 as stated fails: with the nested layout \<open>[[SMALL], []]\<close> and one panel the counts
  agree, the layout is not empty and \<open>row_heights\<close> is an integer, yet construction
  fails, in the allocator, on the empty row.
\<close>

theorem construction_empty_row_counterexample:
  "PanelGroup_init (Some (Nested [[SMALL], []])) [0] None (Height 8) None empty_store
     = Inl IndexError \<and>
   sum_list (map length [[SMALL], []]) = length [0 :: nat]"
proof -
  have "map_sum id (\<lambda>u. ())
      (PanelGroup_init (Some (Nested [[SMALL], []])) [0] None (Height 8) None empty_store)
     = Inl IndexError"
    by code_simp
  from Inl_unit[OF this] show ?thesis by simp
qed

text \<open>
  C6 (as amended).  A missing origin is the origin 0: construction without the argument
  \<open>y\<close> is construction with \<open>y = 0\<close>, in success and failure, in the group it returns
  and in every position it assigns.
\<close>

theorem origin_default:
  "PanelGroup_init layout ps None rh r s = PanelGroup_init layout ps (Some 0) rh r s"
  by (simp add: PanelGroup_init_def
      cong del: option.case_cong_weak sum.case_cong_weak if_weak_cong)

text \<open>
  C6 as stated fails: built with origin \<open>-3\<close> the group has origin \<open>-3\<close> and its only
  panel is at \<open>y = -3\<close>; built with origin 0 it is at \<open>y = 0\<close>.
\<close>

theorem negative_origin_counterexample:
  "map_sum id (\<lambda>(g, s'). (pg_y g, pos s' 0))
     (PanelGroup_init (Some (Flat [SMALL])) [0] (Some (- 3)) (Height 8) None empty_store) =
     Inr (- 3, Some \<lparr>gp_x = 0, gp_y = - 3, gp_w = 24, gp_h = 8\<rparr>) \<and>
   map_sum id (\<lambda>(g, s'). (pg_y g, pos s' 0))
     (PanelGroup_init (Some (Flat [SMALL])) [0] (Some 0) (Height 8) None empty_store) =
     Inr (0, Some \<lparr>gp_x = 0, gp_y = 0, gp_w = 24, gp_h = 8\<rparr>)"
  by code_simp

text \<open>
  C10 (as amended).  With an empty list of panels, a flat layout of any positive length
  and \<open>row_heights\<close> one integer or the empty list, construction succeeds: the layout
  has no rows, \<open>get_height\<close> returns 0 without a row header and 2 with one, the row header
  gets \<open>{x:0, y:origin, w:24, h:1}\<close>, and nothing else is written: without a row header
  the store is unchanged, with one it is changed by that one assignment.
\<close>

theorem empty_panels_flat_layout:
  assumes "sizes \<noteq> []" and "rh = Height h \<or> rh = Heights []"
  shows "\<exists>g s'. PanelGroup_init (Some (Flat sizes)) [] y rh r s = Inr (g, s') \<and>
     pg_layout g = [] \<and> pg_row_heights g = [] \<and> pg_panels g = [] \<and> pg_row g = r \<and>
     pg_y g = (case y of None \<Rightarrow> 0 | Some v \<Rightarrow> v) \<and>
     PanelGroup_get_height g = (if r = None then 0 else 2) \<and>
     (case r of
        None \<Rightarrow> s' = s
      | Some rp \<Rightarrow>
          pos s' rp = Some \<lparr>gp_x = 0, gp_y = pg_y g, gp_w = 24, gp_h = 1\<rparr> \<and>
          s' = assign_gridPos rp \<lparr>gp_x = 0, gp_y = pg_y g, gp_w = 24, gp_h = 1\<rparr> s)"
proof -
  obtain z zs where z: "sizes = z # zs" using assms(1) by (cases sizes) auto
  show ?thesis using assms(2)
    by (cases r)
      (auto simp: PanelGroup_init_def z compute_grid_pos_def MAX_WIDTH_def
         PanelGroup_get_height_def pos_def)
qed

theorem empty_panels_flat_layout_witness:
  "\<exists>g s'. PanelGroup_init (Some (Flat [SMALL, MEDIUM])) [] (Some 5) (Height 8) (Some 9) empty_store
       = Inr (g, s') \<and>
     pg_layout g = [] \<and> PanelGroup_get_height g = 2 \<and>
     pos s' 9 = Some \<lparr>gp_x = 0, gp_y = 5, gp_w = 24, gp_h = 1\<rparr> \<and>
     s' = assign_gridPos 9 \<lparr>gp_x = 0, gp_y = 5, gp_w = 24, gp_h = 1\<rparr> empty_store"
proof -
  have h1: "[SMALL, MEDIUM] \<noteq> []" by simp
  have h2: "Height 8 = Height 8 \<or> Height 8 = Heights []" by simp
  from empty_panels_flat_layout[OF h1 h2, of "Some 5" "Some 9" empty_store]
  show ?thesis by auto
qed

text \<open>
  C10 as stated fails: with \<open>row_heights = [8]\<close> the same construction fails, the layout
  having no rows and \<open>row_heights\<close> one entry.
\<close>

theorem empty_panels_heights_counterexample:
  "PanelGroup_init (Some (Flat [SMALL, MEDIUM])) [] None (Heights [8]) None empty_store
     = Inl AssertionError"
proof -
  have "map_sum id (\<lambda>u. ())
      (PanelGroup_init (Some (Flat [SMALL, MEDIUM])) [] None (Heights [8]) None empty_store)
     = Inl AssertionError"
    by code_simp
  from Inl_unit[OF this] show ?thesis .
qed

text \<open>
  C3 (as amended).  For panels that are distinct objects, the row header not among them:
  after construction the row header, when there is one, has
  \<open>{x:0, y:origin, w:24, h:1}\<close>; row \<open>i\<close> gets the widths the allocator returns for its
  sizes, all at least 1; its \<open>j\<close>-th panel has \<open>x\<close> the sum of the widths before it, \<open>y\<close>
  the origin, plus 2 under a row header, plus \<open>height + 1\<close> for every row above, the
  allocated width and the row's height; no other panel's \<^verbatim>\<open>gridPos\<close> and no
  \<^verbatim>\<open>GridPos\<close> object that was there before is changed.  The example of the
  specification: layout \<open>[[3, 2], [1, 1]]\<close>, row height 8, four panels gives widths 15
  and 9 at \<open>y = 0\<close> and widths 12 and 12 at \<open>y = 9\<close>.
\<close>

theorem group_positions:
  assumes "distinct (case r of None \<Rightarrow> ps | Some rp \<Rightarrow> rp # ps)"
  shows "(PanelGroup_init layout ps y rh r s = Inr (g, s') \<longrightarrow>
      pg_y g = (case y of None \<Rightarrow> 0 | Some v \<Rightarrow> v) \<and> pg_row g = r \<and> pg_panels g = ps \<and>
      (\<forall>rp. r = Some rp \<longrightarrow> pos s' rp = Some \<lparr>gp_x = 0, gp_y = pg_y g, gp_w = 24, gp_h = 1\<rparr>) \<and>
      (\<forall>i<length (pg_layout g). \<exists>ws.
           create_width_units_array (map size_value (pg_layout g ! i)) 24 = Inr ws \<and>
           length ws = length (pg_layout g ! i) \<and> (\<forall>x\<in>set ws. 1 \<le> x) \<and>
           (\<forall>j<length ws.
              pos s' (ps ! (sum_list (map length (take i (pg_layout g))) + j)) =
                Some \<lparr>gp_x = sum_list (take j ws),
                      gp_y = pg_y g + (if r = None then 0 else 2)
                               + sum_list (map (\<lambda>h. h + 1) (take i (pg_row_heights g))),
                      gp_w = ws ! j, gp_h = pg_row_heights g ! i\<rparr>)) \<and>
      (\<forall>p. p \<notin> set ps \<and> Some p \<noteq> r \<longrightarrow> gridPos s' p = gridPos s p) \<and>
      (\<forall>a<next_cell s. cells s' a = cells s a)) \<and>
   map_sum id (\<lambda>(g, s'). (g, map (pos s') [0, 1, 2, 3]))
     (PanelGroup_init (Some (Nested [[LARGE, MEDIUM], [SMALL, SMALL]])) [0, 1, 2, 3]
        (Some 0) (Height 8) None empty_store) =
     Inr (\<lparr>pg_layout = [[LARGE, MEDIUM], [SMALL, SMALL]], pg_row_heights = [8, 8],
           pg_row = None, pg_y = 0, pg_height = 18, pg_panels = [0, 1, 2, 3]\<rparr>,
          [Some \<lparr>gp_x = 0, gp_y = 0, gp_w = 15, gp_h = 8\<rparr>,
           Some \<lparr>gp_x = 15, gp_y = 0, gp_w = 9, gp_h = 8\<rparr>,
           Some \<lparr>gp_x = 0, gp_y = 9, gp_w = 12, gp_h = 8\<rparr>,
           Some \<lparr>gp_x = 12, gp_y = 9, gp_w = 12, gp_h = 8\<rparr>])"
proof -
  have d: "distinct ps" and rp: "\<forall>rp. r = Some rp \<longrightarrow> rp \<notin> set ps"
    using assms by (cases r; simp)+
  have ex: "map_sum id (\<lambda>(g, s'). (g, map (pos s') [0, 1, 2, 3]))
     (PanelGroup_init (Some (Nested [[LARGE, MEDIUM], [SMALL, SMALL]])) [0, 1, 2, 3]
        (Some 0) (Height 8) None empty_store) =
     Inr (\<lparr>pg_layout = [[LARGE, MEDIUM], [SMALL, SMALL]], pg_row_heights = [8, 8],
           pg_row = None, pg_y = 0, pg_height = 18, pg_panels = [0, 1, 2, 3]\<rparr>,
          [Some \<lparr>gp_x = 0, gp_y = 0, gp_w = 15, gp_h = 8\<rparr>,
           Some \<lparr>gp_x = 15, gp_y = 0, gp_w = 9, gp_h = 8\<rparr>,
           Some \<lparr>gp_x = 0, gp_y = 9, gp_w = 12, gp_h = 8\<rparr>,
           Some \<lparr>gp_x = 12, gp_y = 9, gp_w = 12, gp_h = 8\<rparr>])"
    by code_simp
  have gen: "pg_y g = (case y of None \<Rightarrow> 0 | Some v \<Rightarrow> v) \<and> pg_row g = r \<and> pg_panels g = ps \<and>
      (\<forall>rp. r = Some rp \<longrightarrow> pos s' rp = Some \<lparr>gp_x = 0, gp_y = pg_y g, gp_w = 24, gp_h = 1\<rparr>) \<and>
      (\<forall>i<length (pg_layout g). \<exists>ws.
           create_width_units_array (map size_value (pg_layout g ! i)) 24 = Inr ws \<and>
           length ws = length (pg_layout g ! i) \<and> (\<forall>x\<in>set ws. 1 \<le> x) \<and>
           (\<forall>j<length ws.
              pos s' (ps ! (sum_list (map length (take i (pg_layout g))) + j)) =
                Some \<lparr>gp_x = sum_list (take j ws),
                      gp_y = pg_y g + (if r = None then 0 else 2)
                               + sum_list (map (\<lambda>h. h + 1) (take i (pg_row_heights g))),
                      gp_w = ws ! j, gp_h = pg_row_heights g ! i\<rparr>)) \<and>
      (\<forall>p. p \<notin> set ps \<and> Some p \<noteq> r \<longrightarrow> gridPos s' p = gridPos s p) \<and>
      (\<forall>a<next_cell s. cells s' a = cells s a)"
    if init: "PanelGroup_init layout ps y rh r s = Inr (g, s')"
  proof -
    note f = PanelGroup_init_Inr[OF init] and st = group_store[OF init]
    have hdr: "\<forall>rp. r = Some rp \<longrightarrow>
        pos s' rp = Some \<lparr>gp_x = 0, gp_y = pg_y g, gp_w = 24, gp_h = 1\<rparr>"
      using st(7) rp by blast
    show ?thesis
      using f(5) f(7) f(8) hdr group_rows[OF init d] st(5) st(4) by (intro conjI)
  qed
  show ?thesis by (rule conjI[OF impI[OF gen] ex])
qed

theorem group_positions_witness:
  "\<exists>g s'. PanelGroup_init (Some (Nested [[LARGE, MEDIUM], [SMALL, SMALL]])) [0, 1, 2, 3]
        (Some 0) (Height 8) (Some 9) empty_store = Inr (g, s') \<and>
     pos s' 9 = Some \<lparr>gp_x = 0, gp_y = 0, gp_w = 24, gp_h = 1\<rparr> \<and>
     pos s' 3 = Some \<lparr>gp_x = 12, gp_y = 11, gp_w = 12, gp_h = 8\<rparr> \<and>
     gridPos s' 4 = None"
proof -
  let ?G = "\<lparr>pg_layout = [[LARGE, MEDIUM], [SMALL, SMALL]], pg_row_heights = [8, 8],
           pg_row = Some 9, pg_y = 0, pg_height = 20, pg_panels = [0, 1, 2, 3]\<rparr>"
  have "map_sum id fst
     (PanelGroup_init (Some (Nested [[LARGE, MEDIUM], [SMALL, SMALL]])) [0, 1, 2, 3]
        (Some 0) (Height 8) (Some 9) empty_store) = Inr ?G"
    by code_simp
  from Inr_fst[OF this] obtain s' where
    init: "PanelGroup_init (Some (Nested [[LARGE, MEDIUM], [SMALL, SMALL]])) [0, 1, 2, 3]
        (Some 0) (Height 8) (Some 9) empty_store = Inr (?G, s')" ..
  have h: "distinct (case Some 9 of None \<Rightarrow> [0, 1, 2, 3] | Some rp \<Rightarrow> rp # [0, 1, 2, 3 :: nat])"
    by simp
  note gen = group_positions[OF h, THEN conjunct1, THEN mp, OF init]
  have hdr: "pos s' 9 = Some \<lparr>gp_x = 0, gp_y = 0, gp_w = 24, gp_h = 1\<rparr>"
    using gen by simp
  have cw: "create_width_units_array (map size_value [SMALL, SMALL]) 24 = Inr [12, 12]"
    by code_simp
  from gen have "\<forall>i<length (pg_layout ?G). \<exists>ws.
           create_width_units_array (map size_value (pg_layout ?G ! i)) 24 = Inr ws \<and>
           length ws = length (pg_layout ?G ! i) \<and> (\<forall>x\<in>set ws. 1 \<le> x) \<and>
           (\<forall>j<length ws.
              pos s' ([0, 1, 2, 3] ! (sum_list (map length (take i (pg_layout ?G))) + j)) =
                Some \<lparr>gp_x = sum_list (take j ws),
                      gp_y = pg_y ?G + (if Some (9::nat) = None then 0 else 2)
                               + sum_list (map (\<lambda>h. h + 1) (take i (pg_row_heights ?G))),
                      gp_w = ws ! j, gp_h = pg_row_heights ?G ! i\<rparr>)"
    by blast
  from this[THEN spec, of 1] cw
  have "\<forall>j<2. pos s' ([0, 1, 2, 3] ! (2 + j)) =
      Some \<lparr>gp_x = sum_list (take j [12, 12]), gp_y = 11, gp_w = [12, 12] ! j, gp_h = 8\<rparr>"
    by simp
  from this[THEN spec, of 1]
  have p3: "pos s' 3 = Some \<lparr>gp_x = 12, gp_y = 11, gp_w = 12, gp_h = 8\<rparr>" by simp
  have "gridPos s' 4 = gridPos empty_store 4" using gen by simp
  then have fr: "gridPos s' 4 = None" by (simp add: empty_store_def)
  from init hdr p3 fr show ?thesis by blast
qed

text \<open>
  C3 as stated fails: when one panel object is listed twice for the row
  \<open>[SMALL, MEDIUM]\<close>, whose widths are 8 and 16, the second assignment replaces the
  first, and the first entry of the row is at \<open>x = 8\<close> with width 16, not at \<open>x = 0\<close>
  with width 8.
\<close>

theorem shared_panel_counterexample:
  "map_sum id (\<lambda>(g, s'). (pg_panels g, pos s' 0))
     (PanelGroup_init (Some (Nested [[SMALL, MEDIUM]])) [0, 0] (Some 0) (Height 8) None empty_store)
     = Inr ([0, 0], Some \<lparr>gp_x = 8, gp_y = 0, gp_w = 16, gp_h = 8\<rparr>) \<and>
   create_width_units_array (map size_value [SMALL, MEDIUM]) 24 = Inr [8, 16]"
  by code_simp

theorem group_set_y_witness:
  "\<exists>g s s'.
     PanelGroup_init (Some (Flat [SMALL])) [0] None (Height 8) (Some 9) empty_store = Inr (g, s) \<and>
     PanelGroup_set_y g 5 s = Inr (g\<lparr>pg_y := 5\<rparr>, s') \<and>
     pos s 9 = Some \<lparr>gp_x = 0, gp_y = 0, gp_w = 24, gp_h = 1\<rparr> \<and>
     pos s' 9 = Some \<lparr>gp_x = 0, gp_y = 5, gp_w = 24, gp_h = 1\<rparr> \<and>
     pos s 0 = Some \<lparr>gp_x = 0, gp_y = 2, gp_w = 24, gp_h = 8\<rparr> \<and>
     pos s' 0 = Some \<lparr>gp_x = 0, gp_y = 7, gp_w = 24, gp_h = 8\<rparr>"
proof -
  let ?G = "\<lparr>pg_layout = [[SMALL]], pg_row_heights = [8], pg_row = Some 9, pg_y = 0,
             pg_height = 11, pg_panels = [0]\<rparr>"
  have "map_sum id fst
      (PanelGroup_init (Some (Flat [SMALL])) [0] None (Height 8) (Some 9) empty_store) = Inr ?G"
    by code_simp
  from Inr_fst[OF this] obtain s where
    init: "PanelGroup_init (Some (Flat [SMALL])) [0] None (Height 8) (Some 9) empty_store
             = Inr (?G, s)" ..
  have "map_sum id (\<lambda>(g, s). (map (gridPos s) [9, 0], map (pos s) [9, 0]))
      (PanelGroup_init (Some (Flat [SMALL])) [0] None (Height 8) (Some 9) empty_store) =
     Inr ([Some 0, Some 1], [Some \<lparr>gp_x = 0, gp_y = 0, gp_w = 24, gp_h = 1\<rparr>,
                              Some \<lparr>gp_x = 0, gp_y = 2, gp_w = 24, gp_h = 8\<rparr>])"
    by code_simp
  then have refs: "gridPos s 9 = Some 0" "gridPos s 0 = Some 1"
    and p9: "pos s 9 = Some \<lparr>gp_x = 0, gp_y = 0, gp_w = 24, gp_h = 1\<rparr>"
    and p0: "pos s 0 = Some \<lparr>gp_x = 0, gp_y = 2, gp_w = 24, gp_h = 8\<rparr>"
    using init by simp_all
  have h: "0 \<le> (5::int) \<and> (\<forall>p\<in>set (items ?G). gridPos s p \<noteq> None) \<and>
      distinct (map (gridPos s) (items ?G))"
    using refs by (simp add: items_def)
  from group_set_y[where g = ?G and y = 5 and s = s, THEN conjunct2, THEN mp, OF h]
  obtain s' where r: "PanelGroup_set_y ?G 5 s = Inr (?G\<lparr>pg_y := 5\<rparr>, s')"
    and mv: "\<forall>p\<in>set (items ?G). \<exists>q. pos s p = Some q \<and>
            pos s' p = Some (q\<lparr>gp_y := gp_y q + (5 - pg_y ?G)\<rparr>)"
    by blast
  have "pos s' 9 = Some \<lparr>gp_x = 0, gp_y = 5, gp_w = 24, gp_h = 1\<rparr>"
    using mv p9 by (simp add: items_def)
  moreover have "pos s' 0 = Some \<lparr>gp_x = 0, gp_y = 7, gp_w = 24, gp_h = 8\<rparr>"
    using mv p0 by (simp add: items_def)
  ultimately show ?thesis using init r p9 p0 by blast
qed

text \<open>
  C8 as stated fails: in a group that lists one panel object twice, \<open>set_y 5\<close> from
  origin 0 moves that panel twice, from \<open>y = 0\<close> to \<open>y = 10\<close>.
\<close>

theorem set_y_shared_panel_counterexample:
  "(case PanelGroup_init (Some (Flat [SMALL, SMALL])) [0, 0] None (Height 8) None empty_store of
      Inl err \<Rightarrow> None
    | Inr (g, s) \<Rightarrow>
        (case PanelGroup_set_y g 5 s of
           Inl err \<Rightarrow> None
         | Inr (g', s') \<Rightarrow> Some (pg_panels g, pg_y g, pg_y g', pos s 0, pos s' 0))) =
   Some ([0, 0], 0, 5, Some \<lparr>gp_x = 12, gp_y = 0, gp_w = 12, gp_h = 8\<rparr>,
         Some \<lparr>gp_x = 12, gp_y = 10, gp_w = 12, gp_h = 8\<rparr>)"
  by code_simp

end
